theory Spec2Isabelle
  imports Main "HOL-Library.Word"
begin

unbundle bit_operations_syntax

section \<open>Geometry: \<open>Rect\<close> (include/exostra.h)\<close>

text \<open>
  \<open>Coord\<close> is \<open>int16_t\<close> and \<open>Extent\<close> is \<open>uint16_t\<close>. Coordinates are modelled as
  \<open>int\<close>; the two conversions that the source performs implicitly are written out.
  Comparisons, \<open>min\<close> and \<open>max\<close> on \<open>Coord\<close> values never overflow.
\<close>

definition isCoord :: "int \<Rightarrow> bool" where
  "isCoord v = (- 32768 \<le> v \<and> v \<le> 32767)"

definition toCoord :: "int \<Rightarrow> int" where
  "toCoord v = (v + 32768) mod 65536 - 32768"

definition toExtent :: "int \<Rightarrow> int" where
  "toExtent v = v mod 65536"

record Rect =
  left :: int
  top_r :: int
  right :: int
  bottom :: int

text \<open>\<open>Rect()\<close>: all four edges default to 0.\<close>

definition Rect0 :: Rect where
  "Rect0 = \<lparr>left = 0, top_r = 0, right = 0, bottom = 0\<rparr>"

text \<open>\<open>explicit Rect(Coord l, Coord t, Extent r, Extent b)\<close>: the right and bottom arguments
  pass through \<open>uint16_t\<close> before they are stored in the \<open>int16_t\<close> fields.\<close>

definition mkRect :: "int \<Rightarrow> int \<Rightarrow> int \<Rightarrow> int \<Rightarrow> Rect" where
  "mkRect l t r b =
     \<lparr>left = toCoord l, top_r = toCoord t,
      right = toCoord (toExtent r), bottom = toCoord (toExtent b)\<rparr>"

text \<open>The data invariant of section 3 of the specification (\<open>right >= left\<close>,
  \<open>bottom >= top\<close>, asserted by \<open>width()\<close> and \<open>height()\<close>), together with the
  range of the field type.\<close>

definition wellFormed :: "Rect \<Rightarrow> bool" where
  "wellFormed r =
     (isCoord (left r) \<and> isCoord (top_r r) \<and> isCoord (right r) \<and> isCoord (bottom r) \<and>
      left r \<le> right r \<and> top_r r \<le> bottom r)"

definition width :: "Rect \<Rightarrow> int" where
  "width r = toExtent (right r - left r)"

definition height :: "Rect \<Rightarrow> int" where
  "height r = toExtent (bottom r - top_r r)"

text \<open>
  \<open>width()\<close> and \<open>height()\<close> start with \<open>EWM_ASSERT(right >= left)\<close> and
  \<open>EWM_ASSERT(bottom >= top)\<close>. The two definitions above give the value that is returned
  when the assertion holds; on a rectangle that violates it the source does not return.
  So \<open>empty()\<close>, and with it \<open>isVisible()\<close>, \<open>isDrawable()\<close> and \<open>markRectDirty()\<close>, are
  modelled on well-formed rectangles: a theorem that states that a call returns, or what
  \<open>empty()\<close> answers, assumes the rectangles that the call evaluates well formed.
\<close>

definition empty_r :: "Rect \<Rightarrow> bool" where
  "empty_r r = (width r = 0 \<or> height r = 0)"

definition pointWithin :: "Rect \<Rightarrow> int \<Rightarrow> int \<Rightarrow> bool" where
  "pointWithin r x y = (x \<ge> left r \<and> x \<le> right r \<and> y \<ge> top_r r \<and> y \<le> bottom r)"

definition overlapsRect :: "Rect \<Rightarrow> Rect \<Rightarrow> bool" where
  "overlapsRect r other =
     (if ((top_r r \<ge> top_r other \<and> top_r r \<le> bottom other) \<or>
          (bottom r \<le> bottom other \<and> bottom r \<ge> top_r other)) \<and>
         ((left r \<le> left other \<and> right r \<ge> left other) \<or>
          (right r \<ge> right other \<and> left r \<le> right other)) then True
      else if ((left r \<ge> left other \<and> left r \<le> right other) \<or>
               (right r \<le> right other \<and> right r \<ge> left other)) \<and>
              ((top_r r \<le> top_r other \<and> bottom r \<ge> top_r other) \<or>
               (bottom r \<ge> bottom other \<and> top_r r \<le> bottom other)) then True
      else if (left r \<le> left other \<and> top_r r \<le> top_r other \<and>
               right r \<ge> right other \<and> bottom r \<ge> bottom other) \<or>
              (left r \<ge> left other \<and> top_r r \<ge> top_r other \<and>
               right r \<le> right other \<and> bottom r \<le> bottom other) then True
      else False)"

definition intersectsRect :: "Rect \<Rightarrow> Rect \<Rightarrow> bool" where
  "intersectsRect r other = (overlapsRect r other \<or> overlapsRect other r)"

definition getIntersection :: "Rect \<Rightarrow> Rect \<Rightarrow> Rect" where
  "getIntersection r other =
     (if intersectsRect r other then
        mkRect (max (left r) (left other)) (max (top_r r) (top_r other))
               (min (right r) (right other)) (min (bottom r) (bottom other))
      else Rect0)"

definition mergeRect :: "Rect \<Rightarrow> Rect \<Rightarrow> Rect" where
  "mergeRect r rect =
     \<lparr>left = min (left r) (left rect), top_r = min (top_r r) (top_r rect),
      right = max (right r) (right rect), bottom = max (bottom r) (bottom rect)\<rparr>"

text \<open>\<open>subtractRect\<close>: the queue of rectangles is a list, in push order.\<close>

definition subtractRect :: "Rect \<Rightarrow> Rect \<Rightarrow> Rect list" where
  "subtractRect r other =
    (if intersectsRect r other then
      (let mergedRect = mergeRect r other;
           alignedLeft = (left mergedRect \<ge> left other);
           alignedTop = (top_r mergedRect \<ge> top_r other);
           alignedRight = (right mergedRect \<le> right other);
           alignedBottom = (bottom mergedRect \<le> bottom other)
       in if \<not> alignedLeft \<or> \<not> alignedTop \<or> \<not> alignedRight \<or> \<not> alignedBottom then
         (let topNoAlignTop = max (top_r mergedRect) (top_r r);
              topNoAlignBottom = min (bottom mergedRect) (bottom other);
              bottomNoAlignTop = min (bottom mergedRect) (top_r other);
              bottomNoAlignBottom = min (bottom mergedRect) (bottom r);
              leftNoAlignRight = min (right mergedRect) (right other);
              leftNoAlignLeft = max (left mergedRect) (left r);
              rightNoAlignRight = min (right mergedRect) (right r);
              rightNoAlignLeft = max (left mergedRect) (left other);
              q1 = (if alignedLeft \<or> alignedRight then
                      (if alignedLeft \<and> \<not> alignedRight then
                         [mkRect leftNoAlignRight (max (top_r mergedRect) (top_r r))
                                 rightNoAlignRight (min (bottom mergedRect) (bottom r))]
                       else []) @
                      (if alignedRight \<and> \<not> alignedLeft then
                         [mkRect leftNoAlignLeft (max (top_r mergedRect) (top_r r))
                                 rightNoAlignLeft (min (bottom mergedRect) (bottom r))]
                       else []) @
                      (if \<not> alignedTop \<and> \<not> alignedBottom then
                         [mkRect (max (left mergedRect) (left r)) topNoAlignTop
                                 (min (right mergedRect) (right r)) bottomNoAlignTop,
                          mkRect (max (left mergedRect) (left r)) topNoAlignBottom
                                 (min (right mergedRect) (right r)) bottomNoAlignBottom]
                       else [])
                    else []);
              q2 = (if alignedTop \<or> alignedBottom then
                      (if alignedTop \<and> \<not> alignedBottom then
                         [mkRect (max (left mergedRect) (left r)) topNoAlignBottom
                                 (min (right mergedRect) (right r)) bottomNoAlignBottom]
                       else []) @
                      (if alignedBottom \<and> \<not> alignedTop then
                         [mkRect (max (left mergedRect) (left r)) topNoAlignTop
                                 (min (right mergedRect) (right r)) bottomNoAlignTop]
                       else []) @
                      (if \<not> alignedLeft \<and> \<not> alignedRight then
                         [mkRect leftNoAlignRight (max (top_r mergedRect) (top_r r))
                                 rightNoAlignRight (min (bottom mergedRect) (bottom r)),
                          mkRect leftNoAlignLeft (max (top_r mergedRect) (top_r r))
                                 rightNoAlignLeft (min (bottom mergedRect) (bottom r))]
                       else [])
                    else []);
              q3 = (if \<not> alignedLeft \<and> \<not> alignedTop \<and> \<not> alignedRight \<and> \<not> alignedBottom then
                      (let e1 = mkRect (min (left other) (left r)) (min (top_r other) (top_r r))
                                       (max (left other) (left r)) (max (bottom other) (bottom r));
                           e2 = e1\<lparr>right := max (right other) (right r),
                                   bottom := max (top_r other) (top_r r)\<rparr>;
                           e3 = e2\<lparr>left := min (right other) (right r),
                                   top_r := min (top_r other) (top_r r),
                                   bottom := max (bottom other) (bottom r)\<rparr>;
                           e4 = e3\<lparr>left := min (left other) (left r),
                                   top_r := min (bottom other) (bottom r)\<rparr>
                       in [e1, e2, e3, e4])
                    else [])
          in q1 @ q2 @ q3)
       else [])
     else [])"

definition outsideRect :: "Rect \<Rightarrow> Rect \<Rightarrow> bool" where
  "outsideRect r other =
     (\<not> pointWithin other (left r) (top_r r) \<and>
      \<not> pointWithin other (right r) (top_r r) \<and>
      \<not> pointWithin other (left r) (bottom r) \<and>
      \<not> pointWithin other (right r) (bottom r))"

definition withinRect :: "Rect \<Rightarrow> Rect \<Rightarrow> bool" where
  "withinRect r other =
     (pointWithin other (left r) (top_r r) \<and>
      pointWithin other (right r) (top_r r) \<and>
      pointWithin other (left r) (bottom r) \<and>
      pointWithin other (right r) (bottom r))"

text \<open>The pixels a rectangle stands for when it is copied to the display: the blit loop of
  \<open>WindowManager::render\<close> copies the lines \<open>top \<le> y < bottom\<close>, \<open>width()\<close> pixels each
  starting at \<open>left\<close>.\<close>

definition pixels :: "Rect \<Rightarrow> (int \<times> int) set" where
  "pixels r = {(x, y). left r \<le> x \<and> x < right r \<and> top_r r \<le> y \<and> y < bottom r}"

text \<open>The strips that \<open>subtractRect\<close> pushes, with the merged bounds evaluated: an auxiliary
  normal form, equal to the source function on well-formed intersecting rectangles.\<close>

definition strips :: "Rect \<Rightarrow> Rect \<Rightarrow> Rect list" where
  "strips A B =
    (let aL = (left B \<le> left A); aT = (top_r B \<le> top_r A);
         aR = (right A \<le> right B); aB = (bottom A \<le> bottom B);
         rightStrip = \<lparr>left = right B, top_r = top_r A, right = right A, bottom = bottom A\<rparr>;
         leftStrip = \<lparr>left = left A, top_r = top_r A, right = left B, bottom = bottom A\<rparr>;
         topStrip = \<lparr>left = left A, top_r = top_r A, right = right A, bottom = top_r B\<rparr>;
         bottomStrip = \<lparr>left = left A, top_r = bottom B, right = right A, bottom = bottom A\<rparr>
     in (if aL \<or> aR then
           (if aL \<and> \<not> aR then [rightStrip] else []) @
           (if aR \<and> \<not> aL then [leftStrip] else []) @
           (if \<not> aT \<and> \<not> aB then [topStrip, bottomStrip] else [])
         else []) @
        (if aT \<or> aB then
           (if aT \<and> \<not> aB then [bottomStrip] else []) @
           (if aB \<and> \<not> aT then [topStrip] else []) @
           (if \<not> aL \<and> \<not> aR then [rightStrip, leftStrip] else [])
         else []) @
        (if \<not> aL \<and> \<not> aT \<and> \<not> aR \<and> \<not> aB then
           [leftStrip, topStrip, rightStrip, bottomStrip]
         else []))"

section \<open>Messages, styles and states\<close>

datatype Message =
  MSG_NONE | MSG_CREATE | MSG_DESTROY | MSG_DRAW | MSG_POSTDRAW | MSG_INPUT | MSG_EVENT | MSG_RESIZE

type_synonym WindowID = "8 word"
type_synonym Style = "16 word"
type_synonym State = "16 word"
type_synonym MsgParam = "32 word"
type_synonym MsgParamWord = "16 word"

definition WID_INVALID :: WindowID where "WID_INVALID = 0"

definition STY_VISIBLE :: Style where "STY_VISIBLE = 1"
definition STY_CHILD :: Style where "STY_CHILD = 2"
definition STY_FRAME :: Style where "STY_FRAME = 4"
definition STY_SHADOW :: Style where "STY_SHADOW = 8"
definition STY_TOPLEVEL :: Style where "STY_TOPLEVEL = 16 OR STY_FRAME OR STY_SHADOW"
definition STY_AUTOSIZE :: Style where "STY_AUTOSIZE = 32"
definition STY_FULLSCREEN :: Style where "STY_FULLSCREEN = 64"

definition STA_ALIVE :: State where "STA_ALIVE = 1"
definition STA_CHECKED :: State where "STA_CHECKED = 2"
definition STA_DIRTY :: State where "STA_DIRTY = 4"

definition WMS_SSAVER_ENABLED :: State where "WMS_SSAVER_ENABLED = 1"
definition WMS_SSAVER_ACTIVE :: State where "WMS_SSAVER_ACTIVE = 2"

definition INPUT_TAP :: MsgParamWord where "INPUT_TAP = 1"

definition bitsHigh :: "'a::len word \<Rightarrow> 'a word \<Rightarrow> bool" where
  "bitsHigh bitmask bits = (bitmask AND bits = bits)"

definition makeMsgParam :: "MsgParamWord \<Rightarrow> MsgParamWord \<Rightarrow> MsgParam" where
  "makeMsgParam hiWord loWord = push_bit 16 (ucast hiWord) OR (ucast loWord AND 0xffff)"

definition getMsgParamHiWord :: "MsgParam \<Rightarrow> MsgParamWord" where
  "getMsgParamHiWord msgParam = ucast (drop_bit 16 msgParam AND 0xffff)"

definition getMsgParamLoWord :: "MsgParam \<Rightarrow> MsgParamWord" where
  "getMsgParamLoWord msgParam = ucast (msgParam AND 0xffff)"

record PackagedMessage =
  msg :: Message
  p1 :: MsgParam
  p2 :: MsgParam

record InputParams =
  type_i :: MsgParamWord
  x_i :: int
  y_i :: int

section \<open>Windows\<close>

text \<open>
  The fields of class \<open>Window\<close> that the modelled operations read or write. Colours, text
  and the graphics context only feed the theme's drawing calls and are left out. The weak
  back pointer \<open>_parent\<close> is represented by the position of a window in the tree
  (its parent is the window whose child list holds it); \<open>hasParent\<close> records whether
  the pointer is non-null.
\<close>

record WindowData =
  id_w :: WindowID
  style :: Style
  state :: State
  rect :: Rect
  dirtyRect :: Rect
  zOrder :: "8 word"
  cornerRadius :: int
  hasParent :: bool
  queue :: "PackagedMessage list"

datatype Window = Window (dat: WindowData) (children: "Window list")

abbreviation getID :: "Window \<Rightarrow> WindowID" where "getID w \<equiv> id_w (dat w)"
abbreviation getStyle :: "Window \<Rightarrow> Style" where "getStyle w \<equiv> style (dat w)"
abbreviation getState :: "Window \<Rightarrow> State" where "getState w \<equiv> state (dat w)"
abbreviation getRect :: "Window \<Rightarrow> Rect" where "getRect w \<equiv> rect (dat w)"
abbreviation getDirtyRect :: "Window \<Rightarrow> Rect" where "getDirtyRect w \<equiv> dirtyRect (dat w)"
abbreviation getZOrder :: "Window \<Rightarrow> 8 word" where "getZOrder w \<equiv> zOrder (dat w)"
abbreviation getQueue :: "Window \<Rightarrow> PackagedMessage list" where "getQueue w \<equiv> queue (dat w)"

definition setZOrder :: "8 word \<Rightarrow> Window \<Rightarrow> Window" where
  "setZOrder z w = Window ((dat w)\<lparr>zOrder := z\<rparr>) (children w)"

definition setState :: "State \<Rightarrow> Window \<Rightarrow> Window" where
  "setState s w = Window ((dat w)\<lparr>state := s\<rparr>) (children w)"

subsection \<open>\<open>WindowContainer\<close>: the deque of children\<close>

definition getChildByID :: "Window list \<Rightarrow> WindowID \<Rightarrow> Window option" where
  "getChildByID c i = find (\<lambda>win. i = getID win) c"

text \<open>\<open>recalculateZOrder\<close>: \<open>uint8_t zOrder = 0; for (win : _children) win->setZOrder(zOrder++)\<close>.\<close>

fun recalc :: "8 word \<Rightarrow> Window list \<Rightarrow> Window list" where
  "recalc z [] = []"
| "recalc z (win # c) = setZOrder z win # recalc (z + 1) c"

definition recalculateZOrder :: "Window list \<Rightarrow> Window list" where
  "recalculateZOrder c = recalc 0 c"

text \<open>The loop \<open>for (it = begin; it != end; it++) if (id == (*it)->getID()) { erase(it); ... }\<close>:
  the first window with the id is erased; \<open>None\<close> when the loop ends without a match.\<close>

fun eraseByID :: "WindowID \<Rightarrow> Window list \<Rightarrow> Window list option" where
  "eraseByID i [] = None"
| "eraseByID i (win # c) =
     (if i = getID win then Some c else map_option ((#) win) (eraseByID i c))"

definition addChild :: "Window list \<Rightarrow> Window \<Rightarrow> bool \<times> Window list" where
  "addChild c child =
     (if getChildByID c (getID child) \<noteq> None then (False, c)
      else (let z = (if c \<noteq> [] then getZOrder (last c) + 1 else 0)
            in (True, c @ [setZOrder z child])))"

definition removeChildByID :: "Window list \<Rightarrow> WindowID \<Rightarrow> bool \<times> Window list" where
  "removeChildByID c i =
     (case eraseByID i c of
        Some c' \<Rightarrow> (True, recalculateZOrder c')
      | None \<Rightarrow> (False, c))"

definition setForegroundWindow :: "Window list \<Rightarrow> Window \<Rightarrow> bool \<times> Window list" where
  "setForegroundWindow c win =
     (if \<not> hasParent (dat win) \<and> bitsHigh (getStyle win) STY_TOPLEVEL then
        (case eraseByID (getID win) c of
           Some c' \<Rightarrow> (True, recalculateZOrder (c' @ [win]))
         | None \<Rightarrow> (False, c))
      else (False, c))"

definition removeAllChildren :: "Window list \<Rightarrow> Window list" where
  "removeAllChildren c = []"

text \<open>A sequence of container operations, applied to a container that starts empty.\<close>

datatype ContainerOp =
  AddChild Window | RemoveChildByID WindowID | SetForegroundWindow Window

fun applyOp :: "Window list \<Rightarrow> ContainerOp \<Rightarrow> Window list" where
  "applyOp c (AddChild win) = snd (addChild c win)"
| "applyOp c (RemoveChildByID i) = snd (removeChildByID c i)"
| "applyOp c (SetForegroundWindow win) = snd (setForegroundWindow c win)"

definition runOps :: "ContainerOp list \<Rightarrow> Window list" where
  "runOps ops = foldl applyOp [] ops"

text \<open>The invariant of a container: ids are unique and the z-order of the window at
  position \<open>i\<close> is \<open>i\<close>.\<close>

definition zinv :: "Window list \<Rightarrow> bool" where
  "zinv c = (distinct (map getID c) \<and> map getZOrder c = map of_nat [0..<length c])"

subsection \<open>The message queue\<close>

definition queueMessage :: "Message \<Rightarrow> MsgParam \<Rightarrow> MsgParam \<Rightarrow> Window \<Rightarrow> bool \<times> Window" where
  "queueMessage m q1 q2 w =
     (let pm = \<lparr>msg = m, p1 = q1, p2 = q2\<rparr>
      in (m = MSG_INPUT \<and> getMsgParamLoWord q1 = INPUT_TAP,
          Window ((dat w)\<lparr>queue := queue (dat w) @ [pm]\<rparr>) (children w)))"

subsection \<open>The dirty rectangle\<close>

text \<open>\<open>markRectDirty\<close>: a non-empty rectangle moves the four edges; an empty one resets the
  dirty rectangle of the window and, through \<open>forEachChild\<close>, of every descendant.\<close>

fun markRectDirty :: "Rect \<Rightarrow> Window \<Rightarrow> Window" where
  "markRectDirty r (Window d cs) =
     (if \<not> empty_r r then
        (let windowRect = rect d;
             dr = dirtyRect d;
             dr1 = (if left r \<ge> left windowRect \<and> (left r < left dr \<or> left dr = 0)
                    then dr\<lparr>left := left r\<rparr> else dr);
             dr2 = (if top_r r \<ge> top_r windowRect \<and> (top_r r < top_r dr1 \<or> top_r dr1 = 0)
                    then dr1\<lparr>top_r := top_r r\<rparr> else dr1);
             dr3 = (if right r \<le> right windowRect \<and> right r > right dr2
                    then dr2\<lparr>right := right r\<rparr> else dr2);
             dr4 = (if bottom r \<le> bottom windowRect \<and> bottom r > bottom dr3
                    then dr3\<lparr>bottom := bottom r\<rparr> else dr3)
         in Window (d\<lparr>dirtyRect := dr4\<rparr>) cs)
      else Window (d\<lparr>dirtyRect := Rect0\<rparr>) (map (markRectDirty Rect0) cs))"

subsection \<open>Construction\<close>

text \<open>
  The member initialisers of \<open>Window::Window\<close> followed by \<open>setDirty(true, false)\<close>: the
  dirty rectangle starts as the whole rectangle, the state as \<open>STA_DIRTY\<close>, the z-order,
  the corner radius, the queue and the child list empty or zero.
\<close>

definition initWindow :: "bool \<Rightarrow> WindowID \<Rightarrow> Style \<Rightarrow> Rect \<Rightarrow> Window" where
  "initWindow parent i sty r =
     Window \<lparr>id_w = i, style = sty, state = 0 OR STA_DIRTY, rect = r, dirtyRect = r,
             zOrder = 0, cornerRadius = 0, hasParent = parent, queue = []\<rparr> []"

text \<open>
  The constructor body. A parentless top-level window creates its graphics context from
  \<open>rect.width()\<close> and \<open>rect.height()\<close>, which assert \<open>right >= left\<close> and \<open>bottom >= top\<close>; any
  other window takes the graphics context of its parent, after \<open>EWM_ASSERT(parent)\<close>.
  Assertions are enabled in the header (\<open>EWM_ENABLE_ASSERTIONS\<close>) and a failed one enters
  \<open>while (true);\<close>: the call does not return, which is the value \<open>None\<close>. The allocation of
  the graphics context is taken to succeed.
\<close>

definition newWindow :: "bool \<Rightarrow> WindowID \<Rightarrow> Style \<Rightarrow> Rect \<Rightarrow> Window option" where
  "newWindow parent i sty r =
     (if bitsHigh sty STY_TOPLEVEL \<and> \<not> parent then
        (if right r \<ge> left r \<and> bottom r \<ge> top_r r then Some (initWindow parent i sty r)
         else None)
      else if \<not> parent then None
      else Some (initWindow parent i sty r))"

subsection \<open>Visibility\<close>

definition isVisible :: "Window \<Rightarrow> bool" where
  "isVisible w = (bitsHigh (getStyle w) STY_VISIBLE \<and> \<not> empty_r (getRect w))"

definition isAlive :: "Window \<Rightarrow> bool" where
  "isAlive w = bitsHigh (getState w) STA_ALIVE"

definition isDirty :: "Window \<Rightarrow> bool" where
  "isDirty w = bitsHigh (getState w) STA_DIRTY"

text \<open>
  \<open>isDrawable\<close>. The argument \<open>disp\<close> is \<open>wm->getDisplayRect()\<close>; the argument \<open>pd\<close> is
  the value of \<open>!parent || (parent && parent->isDrawable())\<close>, which the caller computes
  while it walks down the tree: \<open>True\<close> for a window of the root registry, the
  drawability of the containing window for a child.
\<close>

definition isDrawable :: "Rect \<Rightarrow> bool \<Rightarrow> Window \<Rightarrow> bool" where
  "isDrawable disp pd w =
     (isVisible w \<and> isAlive w \<and> pd \<and> \<not> outsideRect (getRect w) disp)"

subsection \<open>Input\<close>

text \<open>
  \<open>processInput\<close>. \<open>forEachChildReverse\<close> visits the children from the last to the first
  and stops at the first child whose \<open>processInput\<close> returns true; the list function below
  recurses to the end of the list first, so the last child is asked first.
\<close>

fun processInput :: "Rect \<Rightarrow> bool \<Rightarrow> InputParams \<Rightarrow> Window \<Rightarrow> bool \<times> Window"
  and processInputChildren ::
    "Rect \<Rightarrow> bool \<Rightarrow> InputParams \<Rightarrow> Window list \<Rightarrow> bool \<times> Window list" where
  "processInput disp pd params (Window d cs) =
     (if \<not> isDrawable disp pd (Window d cs) then (False, Window d cs)
      else if \<not> pointWithin (rect d) (x_i params) (y_i params) then (False, Window d cs)
      else (case processInputChildren disp (isDrawable disp pd (Window d cs)) params cs of
              (True, cs') \<Rightarrow> (True, Window d cs')
            | (False, cs') \<Rightarrow>
                queueMessage MSG_INPUT
                  (makeMsgParam 0 (type_i params))
                  (makeMsgParam (word_of_int (x_i params)) (word_of_int (y_i params)))
                  (Window d cs')))"
| "processInputChildren disp pd params [] = (False, [])"
| "processInputChildren disp pd params (c # cs) =
     (case processInputChildren disp pd params cs of
        (True, cs') \<Rightarrow> (True, c # cs')
      | (False, cs') \<Rightarrow>
          (case processInput disp pd params c of (handled, c') \<Rightarrow> (handled, c' # cs')))"

section \<open>The window manager\<close>

text \<open>
  The fields of \<open>WindowManager\<close>. \<open>displayWidth\<close> and \<open>displayHeight\<close> are what the graphics
  driver reports (\<open>_gfxDisplay->width()\<close>, \<open>height()\<close>); \<open>radiusMetric\<close> is what the theme
  returns for \<open>METRIC_CORNER_RADIUS_WINDOW\<close>. The clock \<open>millis()\<close> is an argument \<open>now\<close> of
  the operations that read it, taken to be the same at every reading within one call.
\<close>

record WindowManager =
  registry :: "Window list"
  state_wm :: State
  displayWidth :: int
  displayHeight :: int
  radiusMetric :: int
  minRenderIntervalMsec :: "32 word"
  minHitTestIntervalMsec :: "32 word"
  ssaverEpoch :: "32 word"
  ssaverActivateAfter :: "32 word"
  lastRenderTime :: "32 word"
  lastHitTestTime :: "32 word"

definition getDisplayRect :: "WindowManager \<Rightarrow> Rect" where
  "getDisplayRect wm = mkRect 0 0 (displayWidth wm) (displayHeight wm)"

text \<open>The loop of \<open>hitTest\<close> over the registry, front-most window first.\<close>

fun hitTestChildren :: "Rect \<Rightarrow> InputParams \<Rightarrow> Window list \<Rightarrow> bool \<times> Window list" where
  "hitTestChildren disp params [] = (False, [])"
| "hitTestChildren disp params (child # cs) =
     (case hitTestChildren disp params cs of
        (True, cs') \<Rightarrow> (True, child # cs')
      | (False, cs') \<Rightarrow>
          (if \<not> isDrawable disp True child then (False, child # cs')
           else (case processInput disp True params child of
                   (claimed, child') \<Rightarrow> (claimed, child' # cs'))))"

text \<open>
  \<open>hitTest\<close>. The two assertions on the coordinates are modelled: a failed assertion does
  not return (\<open>None\<close>).
\<close>

definition hitTest :: "32 word \<Rightarrow> int \<Rightarrow> int \<Rightarrow> WindowManager \<Rightarrow> WindowManager option" where
  "hitTest now px py wm =
     (if now - lastHitTestTime wm < minHitTestIntervalMsec wm then Some wm
      else if \<not> (px \<ge> 0 \<and> py \<ge> 0) then None
      else if \<not> (px \<le> displayWidth wm \<and> py \<le> displayHeight wm) then None
      else (let wm1 = (if bitsHigh (state_wm wm) WMS_SSAVER_ENABLED
                       then wm\<lparr>ssaverEpoch := now\<rparr> else wm)
            in if bitsHigh (state_wm wm) WMS_SSAVER_ENABLED \<and>
                  bitsHigh (state_wm wm) WMS_SSAVER_ACTIVE then Some wm1
               else (let params = \<lparr>type_i = INPUT_TAP, x_i = px, y_i = py\<rparr>
                     in case hitTestChildren (getDisplayRect wm) params (registry wm) of
                          (claimed, reg') \<Rightarrow>
                            Some (wm1\<lparr>registry := reg', lastHitTestTime := now\<rparr>))))"

text \<open>All message queues of a tree, and of a list of trees, in pre-order.\<close>

fun queues :: "Window \<Rightarrow> PackagedMessage list list"
  and queuesList :: "Window list \<Rightarrow> PackagedMessage list list" where
  "queues (Window d cs) = queue d # queuesList cs"
| "queuesList [] = []"
| "queuesList (c # cs) = queues c @ queuesList cs"

text \<open>The message that \<open>processInput\<close> queues for a tap at \<open>(px, py)\<close>.\<close>

definition tapMessage :: "int \<Rightarrow> int \<Rightarrow> PackagedMessage" where
  "tapMessage px py =
     \<lparr>msg = MSG_INPUT, p1 = makeMsgParam 0 INPUT_TAP,
      p2 = makeMsgParam (word_of_int px) (word_of_int py)\<rparr>"

text \<open>\<open>oneMore m qs qs'\<close>: the queues \<open>qs'\<close> are the queues \<open>qs\<close> with the message \<open>m\<close> appended to
  exactly one of them.\<close>

definition oneMore ::
  "PackagedMessage \<Rightarrow> PackagedMessage list list \<Rightarrow> PackagedMessage list list \<Rightarrow> bool" where
  "oneMore m qs qs' = (\<exists>i < length qs. qs' = qs[i := qs ! i @ [m]])"

section \<open>Message routing of the class \<open>Window\<close>\<close>

text \<open>
  The message handlers of a window are virtual: \<open>Button\<close>, \<open>Label\<close>, \<open>Prompt\<close>,
  \<open>ProgressBar\<close> and \<open>CheckBox\<close> override some of \<open>onCreate\<close>, \<open>onDraw\<close>, \<open>onTapped\<close>,
  \<open>onEvent\<close> and \<open>onResize\<close>, and so may the classes of a program. This section holds the
  handlers of the class \<open>Window\<close> itself, and \<open>routeMessage\<close> below is \<open>Window::routeMessage\<close>
  for an object whose class is \<open>Window\<close>. The operations that route a message taken from a
  queue (\<open>processQueue\<close>, \<open>render\<close>) take the dispatch as an argument, see the section on
  virtual dispatch. \<open>hide\<close>, \<open>destroy\<close>, \<open>onDestroy\<close>, \<open>onPostDraw\<close>, \<open>markRectDirty\<close>,
  \<open>queueMessage\<close>, \<open>processInput\<close> and the container are overridden by no class of the header.

  A window reaches its parent in one place, \<open>onPostDraw\<close>, which calls
  \<open>parent->markRectDirty(getRect())\<close>. A function that can reach \<open>onPostDraw\<close> returns, as
  its last component, the rectangles of these calls in order; the function that iterates
  over the children of the parent applies them to the parent when the child returns
  (\<open>applyParentMarks\<close>). Nothing else of the parent or of the other children is read or
  written while the child runs, so the order of all reads and writes is that of the source.
\<close>

definition setDirtyFlag :: "bool \<Rightarrow> Window \<Rightarrow> Window" where
  "setDirtyFlag dirty w =
     (if dirty then setState (getState w OR STA_DIRTY) w
      else setState (getState w AND NOT STA_DIRTY) w)"

definition onPostDraw :: "Window \<Rightarrow> Window \<times> Rect list" where
  "onPostDraw w =
     (markRectDirty (getRect w) w, if hasParent (dat w) then [getRect w] else [])"

text \<open>
  \<open>routeMessage(MSG_DRAW, p1)\<close>: the two guards, \<open>onDraw\<close> (theme calls, then
  \<open>routeMessage(MSG_POSTDRAW)\<close>, whose result it returns) and \<open>setDirty(false)\<close>.

  The theme calls of \<open>onDraw\<close> write the graphics context, which is not modelled. They
  can also fail an assertion: \<open>getClientRect\<close> asserts the parent of a window that is not a
  parentless top-level window, and \<open>DefaultTheme::drawWindowFrame\<close> deflates the client
  rectangle once for every pixel of the frame, where \<open>Rect::deflate\<close> asserts that the
  rectangle is wider and higher than one pixel. \<open>routeDraw\<close> is the draw of a window on
  which these assertions hold; no theorem below concludes that a draw returns.
\<close>

definition routeDraw :: "Rect \<Rightarrow> bool \<Rightarrow> MsgParam \<Rightarrow> Window \<Rightarrow> bool \<times> Window \<times> Rect list" where
  "routeDraw disp pd q1 w =
     (if \<not> isDrawable disp pd w then (False, w, [])
      else if \<not> isDirty w \<and> q1 = 0 then (False, w, [])
      else (case onPostDraw w of (w1, marks) \<Rightarrow> (True, setDirtyFlag False w1, marks)))"

text \<open>
  \<open>parent->markRectDirty(r)\<close>, applied to the parent (its fields \<open>d\<close>) and to the children
  before and after the child that made the call. The child that made the call has just
  run \<open>markRectDirty(r)\<close> on itself with the same rectangle, so when \<open>r\<close> is empty its
  subtree is already reset at the moment of the call.
\<close>

definition applyParentMark ::
  "Rect \<Rightarrow> WindowData \<times> Window list \<times> Window list \<Rightarrow> WindowData \<times> Window list \<times> Window list" where
  "applyParentMark r s =
     (case s of (d, before, after) \<Rightarrow>
        (if \<not> empty_r r then (dat (markRectDirty r (Window d [])), before, after)
         else (d\<lparr>dirtyRect := Rect0\<rparr>,
               map (markRectDirty Rect0) before, map (markRectDirty Rect0) after)))"

fun applyParentMarks ::
  "Rect list \<Rightarrow> WindowData \<times> Window list \<times> Window list \<Rightarrow> WindowData \<times> Window list \<times> Window list" where
  "applyParentMarks [] s = s"
| "applyParentMarks (r # rs) s = applyParentMarks rs (applyParentMark r s)"

lemma size_list_map_same:
  "(\<And>c. c \<in> set cs \<Longrightarrow> size (f c) = size c) \<Longrightarrow>
   size_list size (map f cs) = size_list size cs"
  by (induction cs) auto

lemma size_markRectDirty [simp]: "size (markRectDirty r w) = size w"
proof (induction r w rule: markRectDirty.induct)
  case (1 r d cs)
  show ?case
  proof (cases "empty_r r")
    case True
    then have "size_list size (map (markRectDirty Rect0) cs) = size_list size cs"
      using 1 by (intro size_list_map_same) simp
    then show ?thesis using True by simp
  next
    case False
    then show ?thesis by (simp add: Let_def)
  qed
qed

lemma size_comp_markRectDirty [simp]: "size \<circ> markRectDirty r = size"
  by (rule ext) simp

lemma size_setState [simp]: "size (setState s w) = size w"
  by (cases w) (simp add: setState_def)

lemma size_setDirtyFlag [simp]: "size (setDirtyFlag b w) = size w"
  by (simp add: setDirtyFlag_def)

lemma size_comp_setDirtyFlag [simp]: "size \<circ> setDirtyFlag b = size"
  by (rule ext) simp

lemma size_children: "size w = Suc (size_list size (children w))"
  by (cases w) simp

lemma size_routeDraw: "routeDraw disp pd q1 w = (h, w1, marks) \<Longrightarrow> size w1 = size w"
  by (auto simp: routeDraw_def onPostDraw_def split: if_splits)

lemma size_applyParentMark:
  "applyParentMark r (d, before, after) = (d', before', after') \<Longrightarrow>
   size_list size after' = size_list size after \<and> size_list size before' = size_list size before"
  by (auto simp: applyParentMark_def split: if_splits)

lemma size_applyParentMarks:
  "applyParentMarks rs (d, before, after) = (d', before', after') \<Longrightarrow>
   size_list size after' = size_list size after \<and> size_list size before' = size_list size before"
proof (induction rs arbitrary: d before after)
  case Nil
  then show ?case by simp
next
  case (Cons r rs)
  obtain d1 b1 a1 where s: "applyParentMark r (d, before, after) = (d1, b1, a1)"
    by (cases "applyParentMark r (d, before, after)")
  show ?case
    using Cons.IH[of d1 b1 a1] Cons.prems s size_applyParentMark[OF s] by simp
qed

text \<open>\<open>redraw\<close> and \<open>redrawChildren\<close>. The loop over the children carries the fields of the
  parent, the children already visited and those still to visit.\<close>

function redraw :: "Rect \<Rightarrow> bool \<Rightarrow> bool \<Rightarrow> Window \<Rightarrow> bool \<times> Window \<times> Rect list"
  and redrawChildren ::
    "Rect \<Rightarrow> bool \<Rightarrow> bool \<Rightarrow> WindowData \<Rightarrow> Window list \<Rightarrow> Window list \<Rightarrow>
     bool \<times> WindowData \<times> Window list" where
  "redraw disp pd force w =
     (if \<not> isDrawable disp pd w then (False, w, [])
      else (case (if isDirty w \<or> force then routeDraw disp pd (if force then 1 else 0) w
                  else (False, w, [])) of
              (redrawn, w1, marks) \<Rightarrow>
                (case redrawChildren disp pd force (dat w1) []
                        (if redrawn then map (setDirtyFlag True) (children w1) else children w1) of
                   (childRedrawn, d3, cs3) \<Rightarrow>
                     (redrawn \<or> childRedrawn, Window d3 cs3, marks))))"
| "redrawChildren disp pdp force d before [] = (False, d, before)"
| "redrawChildren disp pdp force d before (child # after) =
     (if isDirty child \<or> force then
        (case redraw disp (isDrawable disp pdp (Window d [])) force child of
           (r, child', marks) \<Rightarrow>
             (case applyParentMarks marks (d, before, after) of
                (d', before', after') \<Rightarrow>
                  (case redrawChildren disp pdp force d' (before' @ [child']) after' of
                     (childRedrawn, d'', cs'') \<Rightarrow> (r \<or> childRedrawn, d'', cs''))))
      else redrawChildren disp pdp force d (before @ [child]) after)"
  by pat_completeness auto
termination
proof (relation "measure (\<lambda>a. case a of
          Inl (disp, pd, force, w) \<Rightarrow> size w
        | Inr (disp, pdp, force, d, before, after) \<Rightarrow> size_list size after)", goal_cases)
  case 1
  then show ?case by simp
next
  case (2 disp pd force w x y xa ya)
  have "size xa = size w"
    using 2 size_routeDraw[of disp pd "if force then 1 else 0" w x xa ya]
    by (auto split: if_splits)
  then show ?case
    using size_children[of xa] by simp
next
  case 3
  then show ?case by simp
next
  case (4 disp pdp force d before child after x y xa ya xb yb xc yc)
  have "size_list size yc = size_list size after"
    using 4 size_applyParentMarks[of ya d before after xb xc yc] by simp
  then show ?case by simp
next
  case 5
  then show ?case by simp
qed

definition setDirty :: "Rect \<Rightarrow> bool \<Rightarrow> bool \<Rightarrow> bool \<Rightarrow> Window \<Rightarrow> bool \<times> Window \<times> Rect list" where
  "setDirty disp pd dirty redrawWindow w =
     (if dirty then
        (if redrawWindow then redraw disp pd False (setDirtyFlag True w)
         else (True, setDirtyFlag True w, []))
      else (True, setDirtyFlag False w, []))"

definition setStyle :: "Rect \<Rightarrow> bool \<Rightarrow> Style \<Rightarrow> Window \<Rightarrow> Window \<times> Rect list" where
  "setStyle disp pd sty w =
     (if sty \<noteq> getStyle w then
        (case setDirty disp pd True True (Window ((dat w)\<lparr>style := sty\<rparr>) (children w)) of
           (r, w', marks) \<Rightarrow> (w', marks))
      else (w, []))"

definition setCornerRadius :: "Rect \<Rightarrow> bool \<Rightarrow> int \<Rightarrow> Window \<Rightarrow> Window \<times> Rect list" where
  "setCornerRadius disp pd radius w =
     (if radius \<noteq> cornerRadius (dat w) then
        (case setDirty disp pd True True
                (Window ((dat w)\<lparr>cornerRadius := radius\<rparr>) (children w)) of
           (r, w', marks) \<Rightarrow> (w', marks))
      else (w, []))"

text \<open>\<open>onCreate\<close>: \<open>rm\<close> is the theme's \<open>METRIC_CORNER_RADIUS_WINDOW\<close>.\<close>

definition onCreate :: "Rect \<Rightarrow> int \<Rightarrow> bool \<Rightarrow> Window \<Rightarrow> bool \<times> Window \<times> Rect list" where
  "onCreate disp rm pd w =
     (case setCornerRadius disp pd rm w of (w', marks) \<Rightarrow> (True, w', marks))"

text \<open>\<open>onInput\<close>: a tap goes to \<open>onTapped\<close>, which for the class \<open>Window\<close> returns false;
  any other input type reaches \<open>EWM_ASSERT(false)\<close>.\<close>

definition onInput :: "MsgParam \<Rightarrow> MsgParam \<Rightarrow> bool option" where
  "onInput q1 q2 = (if getMsgParamLoWord q1 = INPUT_TAP then Some False else None)"

text \<open>\<open>onResize\<close>: \<open>EWM_ASSERT(bitsHigh(getStyle(), STY_AUTOSIZE))\<close>, then false.\<close>

definition onResize :: "Window \<Rightarrow> bool option" where
  "onResize w = (if bitsHigh (getStyle w) STY_AUTOSIZE then Some False else None)"

text \<open>The end of \<open>routeMessage\<close>: \<open>if (dirty) setDirty(true); return handled;\<close>.\<close>

definition finishRoute ::
  "Rect \<Rightarrow> bool \<Rightarrow> bool \<Rightarrow> bool \<Rightarrow> Window \<Rightarrow> Rect list \<Rightarrow> bool \<times> Window \<times> Rect list" where
  "finishRoute disp pd dirty handled w marks =
     (if dirty then
        (case setDirty disp pd True True w of (r, w', marks') \<Rightarrow> (handled, w', marks @ marks'))
      else (handled, w, marks))"

text \<open>\<open>routeMessage\<close> with the handlers of the class \<open>Window\<close>. \<open>None\<close>: a failed assertion,
  the call does not return.\<close>

definition routeMessage ::
  "Rect \<Rightarrow> int \<Rightarrow> bool \<Rightarrow> Message \<Rightarrow> MsgParam \<Rightarrow> MsgParam \<Rightarrow> Window \<Rightarrow>
   (bool \<times> Window \<times> Rect list) option" where
  "routeMessage disp rm pd m q1 q2 w =
     (case m of
        MSG_CREATE \<Rightarrow>
          (case onCreate disp rm pd w of
             (handled, w1, marks) \<Rightarrow>
               Some (finishRoute disp pd handled handled
                      (if handled then setState (getState w1 OR STA_ALIVE) w1 else w1) marks))
      | MSG_DESTROY \<Rightarrow>
          Some (finishRoute disp pd False True (setState (getState w AND NOT STA_ALIVE) w) [])
      | MSG_DRAW \<Rightarrow> Some (routeDraw disp pd q1 w)
      | MSG_POSTDRAW \<Rightarrow>
          (case onPostDraw w of (w1, marks) \<Rightarrow> Some (finishRoute disp pd False True w1 marks))
      | MSG_INPUT \<Rightarrow>
          (case onInput q1 q2 of
             None \<Rightarrow> None
           | Some handled \<Rightarrow> Some (finishRoute disp pd handled handled w []))
      | MSG_EVENT \<Rightarrow> Some (True, w, [])
      | MSG_RESIZE \<Rightarrow>
          (case onResize w of
             None \<Rightarrow> None
           | Some handled \<Rightarrow> Some (finishRoute disp pd handled handled w []))
      | MSG_NONE \<Rightarrow> None)"

lemma size_redraw:
  "redraw disp pd force w = (r, w', marks) \<Longrightarrow> size w' = size w"
  "redrawChildren disp pdp force d before after = (r', d', cs') \<Longrightarrow>
     size_list size cs' = size_list size before + size_list size after"
proof (induction disp pd force w and disp pdp force d before after
       arbitrary: r w' marks and r' d' cs' rule: redraw_redrawChildren.induct)
  case (1 disp pd force w)
  show ?case
  proof (cases "isDrawable disp pd w")
    case False
    then show ?thesis using "1.prems" by simp
  next
    case True
    obtain redrawn w1 marks1 where
      a: "(if isDirty w \<or> force then routeDraw disp pd (if force then 1 else 0) w
           else (False, w, [])) = (redrawn, w1, marks1)"
      by (cases "if isDirty w \<or> force then routeDraw disp pd (if force then 1 else 0) w
           else (False, w, [])")
    have s1: "size w1 = size w"
      using a size_routeDraw[of disp pd "if force then 1 else 0" w redrawn w1 marks1]
      by (auto split: if_splits)
    obtain cr d3 cs3 where
      b: "redrawChildren disp pd force (dat w1) []
            (if redrawn then map (setDirtyFlag True) (children w1) else children w1) = (cr, d3, cs3)"
      by (cases "redrawChildren disp pd force (dat w1) []
            (if redrawn then map (setDirtyFlag True) (children w1) else children w1)")
    have "size_list size cs3 = size_list size (children w1)"
      using "1.IH"[of redrawn "(w1, marks1)" w1 marks1 cr d3 cs3] True a b
      by (simp split: if_splits)
    moreover have "w' = Window d3 cs3"
      using "1.prems" True a b by simp
    ultimately show ?thesis
      using s1 size_children[of w1] by simp
  qed
next
  case (2 disp pdp force d before)
  then show ?case by simp
next
  case (3 disp pdp force d before child after)
  show ?case
  proof (cases "isDirty child \<or> force")
    case False
    then show ?thesis
      using "3.IH"(3)[OF False, of r' d' cs'] "3.prems" by simp
  next
    case True
    obtain r1 child' marks1 where
      a: "redraw disp (isDrawable disp pdp (Window d [])) force child = (r1, child', marks1)"
      by (cases "redraw disp (isDrawable disp pdp (Window d [])) force child")
    obtain d1 before1 after1 where
      b: "applyParentMarks marks1 (d, before, after) = (d1, before1, after1)"
      by (cases "applyParentMarks marks1 (d, before, after)")
    obtain cr d2 cs2 where
      c: "redrawChildren disp pdp force d1 (before1 @ [child']) after1 = (cr, d2, cs2)"
      by (cases "redrawChildren disp pdp force d1 (before1 @ [child']) after1")
    have s1: "size child' = size child"
      using "3.IH"(1)[OF True a] .
    have s2: "size_list size cs2 = size_list size (before1 @ [child']) + size_list size after1"
      using "3.IH"(2)[of r1 "(child', marks1)" child' marks1 d1 "(before1, after1)"
          before1 after1 cr d2 cs2] True a b c by simp
    have s3: "size_list size after1 = size_list size after"
             "size_list size before1 = size_list size before"
      using size_applyParentMarks[OF b] by simp_all
    have "cs' = cs2"
      using "3.prems" True a b c by simp
    then show ?thesis
      using s1 s2 s3 by simp
  qed
qed

lemma size_setDirty: "setDirty disp pd dirty rw w = (r, w', marks) \<Longrightarrow> size w' = size w"
  using size_redraw(1)[of disp pd False "setDirtyFlag True w" r w' marks]
  by (auto simp: setDirty_def split: if_splits)

lemma size_finishRoute:
  "finishRoute disp pd dirty handled w marks = (h, w', marks') \<Longrightarrow> size w' = size w"
proof (cases dirty)
  case False
  then show "finishRoute disp pd dirty handled w marks = (h, w', marks') \<Longrightarrow> size w' = size w"
    by (simp add: finishRoute_def)
next
  case True
  assume f: "finishRoute disp pd dirty handled w marks = (h, w', marks')"
  obtain r w2 m2 where s: "setDirty disp pd True True w = (r, w2, m2)"
    by (cases "setDirty disp pd True True w")
  have "w' = w2" using f True s by (simp add: finishRoute_def)
  then show "size w' = size w" using size_setDirty[OF s] by simp
qed

lemma size_setCornerRadius:
  "setCornerRadius disp pd radius w = (w', marks) \<Longrightarrow> size w' = size w"
proof (cases "radius \<noteq> cornerRadius (dat w)")
  case False
  then show "setCornerRadius disp pd radius w = (w', marks) \<Longrightarrow> size w' = size w"
    by (simp add: setCornerRadius_def)
next
  case True
  assume f: "setCornerRadius disp pd radius w = (w', marks)"
  obtain r w2 m2 where
    s: "setDirty disp pd True True (Window ((dat w)\<lparr>cornerRadius := radius\<rparr>) (children w)) =
          (r, w2, m2)"
    by (cases "setDirty disp pd True True (Window ((dat w)\<lparr>cornerRadius := radius\<rparr>) (children w))")
  have "w' = w2" using f True s by (simp add: setCornerRadius_def)
  then show "size w' = size w"
    using size_setDirty[OF s] size_children[of w] by simp
qed

lemma size_routeMessage:
  assumes "routeMessage disp rm pd m q1 q2 w = Some (h, w', marks)"
  shows "size w' = size w"
proof (cases m)
  case MSG_NONE
  then show ?thesis using assms by (simp add: routeMessage_def)
next
  case MSG_CREATE
  obtain w1 m1 where c: "setCornerRadius disp pd rm w = (w1, m1)"
    by (cases "setCornerRadius disp pd rm w")
  have "finishRoute disp pd True True (setState (getState w1 OR STA_ALIVE) w1) m1 = (h, w', marks)"
    using assms MSG_CREATE c by (simp add: routeMessage_def onCreate_def)
  then show ?thesis
    using size_finishRoute size_setCornerRadius[OF c] by fastforce
next
  case MSG_DESTROY
  then show ?thesis
    using assms size_finishRoute[of disp pd False True "setState (getState w AND NOT STA_ALIVE) w" "[]" h w' marks]
    by (simp add: routeMessage_def)
next
  case MSG_DRAW
  then show ?thesis
    using assms size_routeDraw[of disp pd q1 w h w' marks] by (simp add: routeMessage_def)
next
  case MSG_POSTDRAW
  then show ?thesis
    using assms by (auto simp: routeMessage_def onPostDraw_def finishRoute_def)
next
  case MSG_INPUT
  then show ?thesis
    using assms size_finishRoute[of disp pd _ _ w "[]" h w' marks]
    by (auto simp: routeMessage_def split: option.splits)
next
  case MSG_EVENT
  then show ?thesis using assms by (simp add: routeMessage_def)
next
  case MSG_RESIZE
  then show ?thesis
    using assms size_finishRoute[of disp pd _ _ w "[]" h w' marks]
    by (auto simp: routeMessage_def split: option.splits)
qed

lemma queue_markRectDirty [simp]: "getQueue (markRectDirty r w) = getQueue w"
  by (cases w) (simp add: Let_def)

lemma queue_setState [simp]: "getQueue (setState s w) = getQueue w"
  by (simp add: setState_def)

lemma queue_setDirtyFlag [simp]: "getQueue (setDirtyFlag b w) = getQueue w"
  by (simp add: setDirtyFlag_def)

section \<open>Virtual dispatch and the message queue\<close>

text \<open>
  \<open>processQueue\<close> routes the message that it takes from the queue through \<open>routeMessage\<close>,
  which calls the virtual handlers of the window. In the model the dispatch is an
  argument \<open>route\<close>: \<open>route pd m p1 p2 w\<close> is what \<open>routeMessage(m, p1, p2)\<close> does for the
  window \<open>w\<close>, whatever its class, \<open>pd\<close> being the value of
  \<open>!parent || parent->isDrawable()\<close>. The result is \<open>None\<close> when the call does not return,
  and otherwise the value returned, the window with its subtree, and what the handlers
  did to the parent of the window, in order: \<open>parent->markRectDirty(r)\<close>, as
  \<open>Window::onPostDraw\<close> does, and \<open>parent->queueMessage(m, p1, p2)\<close>, as \<open>Button::onTapped\<close>
  does with \<open>MSG_EVENT\<close>. A handler that writes anything else (\<open>Prompt::onEvent\<close> hides the
  prompt, which marks other top-level windows dirty through the manager, and calls the
  result callback of the program) is not a value of \<open>route\<close>.
\<close>

datatype Effect = MarkParent Rect | QueueParent PackagedMessage

type_synonym Route =
  "bool \<Rightarrow> Message \<Rightarrow> MsgParam \<Rightarrow> MsgParam \<Rightarrow> Window \<Rightarrow> (bool \<times> Window \<times> Effect list) option"

text \<open>The dispatch for a tree in which every object is of the class \<open>Window\<close>.\<close>

definition windowRoute :: "Rect \<Rightarrow> int \<Rightarrow> Route" where
  "windowRoute disp rm pd m q1 q2 w =
     (case routeMessage disp rm pd m q1 q2 w of
        None \<Rightarrow> None
      | Some (handled, w', marks) \<Rightarrow> Some (handled, w', map MarkParent marks))"

text \<open>
  \<open>routeMessage(MSG_INPUT, p1, p2)\<close> for a class with the given \<open>onTapped\<close>: \<open>onInput\<close>, which
  no class overrides, passes a tap to the virtual \<open>onTapped\<close> and fails its assertion on any
  other input type; then \<open>dirty = handled\<close>, and \<open>if (dirty) setDirty(true)\<close>. \<open>onTapped\<close>
  returns its result and what it did to the parent.
\<close>

definition routeInput ::
  "(Window \<Rightarrow> (bool \<times> Effect list) option) \<Rightarrow> Rect \<Rightarrow> bool \<Rightarrow> MsgParam \<Rightarrow> Window \<Rightarrow>
   (bool \<times> Window \<times> Effect list) option" where
  "routeInput tapped disp pd q1 w =
     (if getMsgParamLoWord q1 \<noteq> INPUT_TAP then None
      else (case tapped w of
              None \<Rightarrow> None
            | Some (handled, effs) \<Rightarrow>
                (case finishRoute disp pd handled handled w [] of
                   (h, w', marks) \<Rightarrow> Some (h, w', effs @ map MarkParent marks))))"

text \<open>
  \<open>Button::onTapped\<close>: \<open>EWM_ASSERT(parent)\<close>, then
  \<open>parent->queueMessage(MSG_EVENT, EVT_CHILD_TAPPED, getID())\<close>, and the result
  \<open>parent != nullptr\<close>. The time of the tap that it stores is read by \<open>Button::onDraw\<close> alone,
  to choose the colours of the button.
\<close>

definition EVT_CHILD_TAPPED :: MsgParam where "EVT_CHILD_TAPPED = 1"

definition Button_onTapped :: "Window \<Rightarrow> (bool \<times> Effect list) option" where
  "Button_onTapped w =
     (if hasParent (dat w) then
        Some (True, [QueueParent \<lparr>msg = MSG_EVENT, p1 = EVT_CHILD_TAPPED, p2 = ucast (getID w)\<rparr>])
      else None)"

text \<open>
  The dispatch for an object of the class \<open>Button\<close>, which overrides \<open>onTapped\<close>, \<open>onDraw\<close>,
  \<open>onCreate\<close> and \<open>onResize\<close>. \<open>Button::onDraw\<close> is, like \<open>Window::onDraw\<close>, theme calls
  followed by \<open>routeMessage(MSG_POSTDRAW)\<close>, so a button draws as \<open>routeDraw\<close> says.
  \<open>Button::onCreate\<close> sets the corner radius of buttons after that of windows, and
  \<open>Button::onResize\<close> sets a rectangle computed from the text bounds that the graphics
  driver reports; these two are not embedded, and for \<open>MSG_CREATE\<close> and \<open>MSG_RESIZE\<close> the
  value below is that of the class \<open>Window\<close>. \<open>buttonRoute\<close> is the code of \<open>Button\<close> for
  \<open>MSG_INPUT\<close>, \<open>MSG_EVENT\<close>, \<open>MSG_DESTROY\<close>, \<open>MSG_DRAW\<close> and \<open>MSG_POSTDRAW\<close>.
\<close>

definition buttonRoute :: "Rect \<Rightarrow> int \<Rightarrow> Route" where
  "buttonRoute disp rm pd m q1 q2 w =
     (if m = MSG_INPUT then routeInput Button_onTapped disp pd q1 w
      else windowRoute disp rm pd m q1 q2 w)"

text \<open>The dispatch for a tree in which the windows that have a parent are of the class
  \<open>Button\<close> and the others of the class \<open>Window\<close>.\<close>

definition dialogRoute :: "Rect \<Rightarrow> int \<Rightarrow> Route" where
  "dialogRoute disp rm pd m q1 q2 w =
     (if hasParent (dat w) then buttonRoute disp rm pd m q1 q2 w
      else windowRoute disp rm pd m q1 q2 w)"

text \<open>What a child did to its parent, applied to the parent (its fields \<open>d\<close>) and to the
  children before and after that child.\<close>

definition applyEffect ::
  "Effect \<Rightarrow> WindowData \<times> Window list \<times> Window list \<Rightarrow> WindowData \<times> Window list \<times> Window list" where
  "applyEffect e s =
     (case e of
        MarkParent r \<Rightarrow> applyParentMark r s
      | QueueParent pm \<Rightarrow>
          (case s of (d, before, after) \<Rightarrow> (d\<lparr>queue := queue d @ [pm]\<rparr>, before, after)))"

fun applyEffects ::
  "Effect list \<Rightarrow> WindowData \<times> Window list \<times> Window list \<Rightarrow> WindowData \<times> Window list \<times> Window list" where
  "applyEffects [] s = s"
| "applyEffects (e # es) s = applyEffects es (applyEffect e s)"

lemma length_applyEffect:
  "applyEffect e (d, before, after) = (d', before', after') \<Longrightarrow>
   length after' = length after \<and> length before' = length before"
  by (cases e) (auto simp: applyEffect_def applyParentMark_def split: if_splits)

lemma length_applyEffects:
  "applyEffects es (d, before, after) = (d', before', after') \<Longrightarrow>
   length after' = length after \<and> length before' = length before"
proof (induction es arbitrary: d before after)
  case Nil
  then show ?case by simp
next
  case (Cons e es)
  obtain d1 b1 a1 where s: "applyEffect e (d, before, after) = (d1, b1, a1)"
    by (cases "applyEffect e (d, before, after)")
  show ?case
    using Cons.IH[of d1 b1 a1] Cons.prems s length_applyEffect[OF s] by simp
qed

text \<open>
  The loop \<open>forEachChild([&](child) { child->processQueue(); return true; })\<close>, with the
  call on the child as the argument \<open>f\<close>. The loop carries the fields of the parent, the
  children already visited and those still to visit.
\<close>

function processQueueChildren ::
  "(bool \<Rightarrow> Window \<Rightarrow> (bool \<times> Window \<times> Effect list) option) \<Rightarrow> Rect \<Rightarrow> bool \<Rightarrow>
   WindowData \<Rightarrow> Window list \<Rightarrow> Window list \<Rightarrow> (WindowData \<times> Window list) option" where
  "processQueueChildren f disp pdp d before [] = Some (d, before)"
| "processQueueChildren f disp pdp d before (child # after) =
     Option.bind (f (isDrawable disp pdp (Window d [])) child)
       (\<lambda>(r, child', effs).
          case applyEffects effs (d, before, after) of
            (d', before', after') \<Rightarrow>
              processQueueChildren f disp pdp d' (before' @ [child']) after')"
  by pat_completeness auto
termination
proof (relation "measure (\<lambda>(f, disp, pdp, d, before, after). length after)", goal_cases)
  case 1
  then show ?case by simp
next
  case (2 f disp pdp d before child after a x y xa ya xb yb xc yc)
  have "applyEffects ya (d, before, after) = (xb, xc, yc)"
    using 2 by simp
  then show ?case
    using length_applyEffects by fastforce
qed

lemma processQueueChildren_mono [partial_function_mono]:
  assumes "\<And>pd c. mono_option (\<lambda>f. F f pd c)"
  shows "mono_option (\<lambda>f. processQueueChildren (F f) disp pdp d before after)"
proof (induction "length after" arbitrary: d before after)
  case 0
  then show ?case by (simp add: option.const_mono)
next
  case (Suc n)
  then obtain child rest where a: "after = child # rest" and n: "n = length rest"
    by (cases after) auto
  have "mono_option (\<lambda>f. case y of (r, child', effs) \<Rightarrow>
          case applyEffects effs (d, before, rest) of
            (d', before', after') \<Rightarrow>
              processQueueChildren (F f) disp pdp d' (before' @ [child']) after')"
    for y
  proof -
    obtain r child' effs where y: "y = (r, child', effs)"
      by (cases y)
    obtain d' b' a' where e: "applyEffects effs (d, before, rest) = (d', b', a')"
      by (cases "applyEffects effs (d, before, rest)")
    have "n = length a'"
      using length_applyEffects[OF e] n by simp
    then show ?thesis
      unfolding y using Suc.hyps(1)[of a' d' "b' @ [child']"] e by simp
  qed
  then show ?case
    unfolding a processQueueChildren.simps by (intro bind_mono assms)
qed

text \<open>
  \<open>processQueue\<close>: the first message of the window's own queue, if there is one, is taken
  off and routed; then every child runs \<open>processQueue\<close>; the result is whether the own
  queue holds a message at the end. The call does not return (\<open>None\<close>) when a call that
  it makes does not.
\<close>

partial_function (option) processQueue ::
    "Route \<Rightarrow> Rect \<Rightarrow> bool \<Rightarrow> Window \<Rightarrow> (bool \<times> Window \<times> Effect list) option" where
  "processQueue route disp pd w =
     Option.bind
       (if getQueue w \<noteq> [] then
          route pd (msg (hd (getQueue w))) (p1 (hd (getQueue w))) (p2 (hd (getQueue w)))
            (Window ((dat w)\<lparr>queue := tl (getQueue w)\<rparr>) (children w))
        else Some (False, w, []))
       (\<lambda>(handled, w1, effs).
          Option.bind (processQueueChildren (processQueue route disp) disp pd (dat w1) []
                         (children w1))
            (\<lambda>(d2, cs2). Some (queue d2 \<noteq> [], Window d2 cs2, effs)))"

subsection \<open>Notions for the statements about the queue\<close>

text \<open>The messages that a list of effects appends to the queue of the parent, the number
  of \<open>MSG_INPUT\<close> messages in a list of queues, and the relation \<open>took ok q q'\<close> between the
  queue of a window before and after one call of \<open>processQueue\<close>: the first message is
  gone, and messages may have been appended, none of them \<open>MSG_INPUT\<close> and all of them
  accepted by \<open>ok\<close>. \<open>stepOk ok w r\<close> says of a result \<open>r\<close> of \<open>processQueue\<close> on \<open>w\<close> that its
  first component tells whether the queue of the window holds a message, that every queue
  of the subtree is related to what it was by \<open>took\<close>, that the messages for the parent are
  not \<open>MSG_INPUT\<close> and accepted by \<open>ok\<close>, and that the number of \<open>MSG_INPUT\<close> messages in the
  subtree has not grown; when it is the same, the queue of the window has only lost its
  first message and the parent has received none.\<close>

fun queued :: "Effect list \<Rightarrow> PackagedMessage list" where
  "queued [] = []"
| "queued (MarkParent r # es) = queued es"
| "queued (QueueParent pm # es) = pm # queued es"

definition inputs :: "PackagedMessage list list \<Rightarrow> nat" where
  "inputs qs = length (filter (\<lambda>pm. msg pm = MSG_INPUT) (concat qs))"




section \<open>Rendering\<close>

text \<open>
  \<open>while (win->processQueue()) { }\<close>. The loop runs for as long as \<open>processQueue\<close> returns
  true, so it need not end; \<open>None\<close> is a loop that does not. \<open>render\<close> runs it for the
  windows of the root registry, which have no parent: what the handlers of such a window
  do to a parent is nothing, and the last component of the result of \<open>processQueue\<close> is
  not used.
\<close>

partial_function (option) drain :: "Route \<Rightarrow> Rect \<Rightarrow> bool \<Rightarrow> Window \<Rightarrow> Window option" where
  "drain route disp pd w =
     Option.bind (processQueue route disp pd w)
       (\<lambda>(pending, w', effs). if pending then drain route disp pd w' else Some w')"

text \<open>What a render pass does to the physical display: the copy of a rectangle of the
  drawing context of the window at a position of the registry (with the rectangle in
  display and in window coordinates), the outline drawn around it, the screensaver,
  and the flush.\<close>

datatype DisplayOp =
  DrawScreensaver | WritePixels nat Rect Rect | DrawRect nat int int int int | Flush




text \<open>The position in the registry of the window that a display operation copies from or
  outlines.\<close>

fun opWindow :: "DisplayOp \<Rightarrow> nat option" where
  "opWindow (WritePixels i r cr) = Some i"
| "opWindow (DrawRect i a b c d) = Some i"
| "opWindow DrawScreensaver = None"
| "opWindow Flush = None"





text \<open>\<open>WindowManager::setDirtyRect\<close>, on the registry.\<close>

definition setDirtyRect :: "Rect \<Rightarrow> Rect \<Rightarrow> Window list \<Rightarrow> Window list" where
  "setDirtyRect disp r reg =
     map (\<lambda>win. if \<not> isDrawable disp True win then win
                else if intersectsRect (getRect win) r
                     then markRectDirty (getIntersection (getRect win) r) win
                else win) reg"



section \<open>Hiding, destroying and creating windows\<close>

text \<open>
  \<open>hide\<close>: the result, the window, and the rectangles passed to \<open>wm->setDirtyRect\<close>. The
  \<open>redraw\<close> inside \<open>setStyle\<close> returns at its first test, the window being no longer
  visible, so it reaches no \<open>onPostDraw\<close> (lemma \<open>hide_setStyle_marks\<close>).
\<close>

definition hide :: "Rect \<Rightarrow> bool \<Rightarrow> Window \<Rightarrow> bool \<times> Window \<times> Rect list" where
  "hide disp pd w =
     (if \<not> isVisible w then (False, w, [])
      else (case setStyle disp pd (getStyle w AND NOT STY_VISIBLE) w of
              (w', marks) \<Rightarrow> (True, w', [getRect w'])))"

lemma size_setStyle: "setStyle disp pd sty w = (w', marks) \<Longrightarrow> size w' = size w"
proof (cases "sty \<noteq> getStyle w")
  case False
  then show "setStyle disp pd sty w = (w', marks) \<Longrightarrow> size w' = size w"
    by (simp add: setStyle_def)
next
  case True
  assume f: "setStyle disp pd sty w = (w', marks)"
  obtain r w2 m2 where
    s: "setDirty disp pd True True (Window ((dat w)\<lparr>style := sty\<rparr>) (children w)) = (r, w2, m2)"
    by (cases "setDirty disp pd True True (Window ((dat w)\<lparr>style := sty\<rparr>) (children w))")
  have "w' = w2" using f True s by (simp add: setStyle_def)
  then show "size w' = size w"
    using size_setDirty[OF s] size_children[of w] by simp
qed

lemma size_hide: "hide disp pd w = (hidden, w', calls) \<Longrightarrow> size w' = size w"
  using size_setStyle[of disp pd "getStyle w AND NOT STY_VISIBLE" w]
  by (auto simp: hide_def split: if_splits prod.splits)

text \<open>
  \<open>destroy\<close>: \<open>hide()\<close>, \<open>routeMessage(MSG_DESTROY)\<close>, \<open>destroy()\<close> of every child, then
  \<open>removeAllChildren()\<close> on the window's own container. The result holds the returned
  flag, the window, the rectangles passed to \<open>wm->setDirtyRect\<close> in order, and the
  windows destroyed, in the order of their \<open>destroy\<close> calls and in the state in which
  \<open>destroy\<close> left them (the children are no longer reachable from the window).
  \<open>routeMessage(MSG_DESTROY)\<close> does not reach \<open>onPostDraw\<close>, so it makes no call into the
  parent (lemma \<open>routeMessage_destroy\<close>).
\<close>

function destroy ::
    "Rect \<Rightarrow> int \<Rightarrow> bool \<Rightarrow> Window \<Rightarrow> (bool \<times> Window \<times> Rect list \<times> Window list) option"
  and destroyChildren ::
    "Rect \<Rightarrow> int \<Rightarrow> bool \<Rightarrow> Window list \<Rightarrow> (bool \<times> Rect list \<times> Window list) option" where
  "destroy disp rm pd w =
     (case hide disp pd w of
        (hidden, w1, calls) \<Rightarrow>
          (case routeMessage disp rm pd MSG_DESTROY 0 0 w1 of
             None \<Rightarrow> None
           | Some (destroyed, w2, marks) \<Rightarrow>
               (case destroyChildren disp rm (isDrawable disp pd w2) (children w2) of
                  None \<Rightarrow> None
                | Some (destroyed', calls', gone) \<Rightarrow>
                    Some (destroyed \<and> destroyed',
                          Window (dat w2) (removeAllChildren (children w2)),
                          calls @ calls',
                          Window (dat w2) (removeAllChildren (children w2)) # gone))))"
| "destroyChildren disp rm pdc [] = Some (True, [], [])"
| "destroyChildren disp rm pdc (child # cs) =
     (case destroy disp rm pdc child of
        None \<Rightarrow> None
      | Some (destroyed, child', calls, gone) \<Rightarrow>
          (case destroyChildren disp rm pdc cs of
             None \<Rightarrow> None
           | Some (destroyed', calls', gone') \<Rightarrow>
               Some (destroyed \<and> destroyed', calls @ calls', gone @ gone')))"
  by pat_completeness auto
termination
proof (relation "measure (\<lambda>a. case a of
          Inl (disp, rm, pd, w) \<Rightarrow> size w
        | Inr (disp, rm, pdc, cs) \<Rightarrow> size_list size cs)", goal_cases)
  case 1
  then show ?case by simp
next
  case (2 disp rm pd w x y xa ya x2 xb yb xc yc)
  have "size xa = size w"
    using 2 size_hide[of disp pd w x xa ya] by simp
  moreover have "size xc = size xa"
    using 2 size_routeMessage[of disp rm pd MSG_DESTROY 0 0 xa xb xc yc] by simp
  ultimately show ?case
    using size_children[of xc] by simp
next
  case 3
  then show ?case by simp
next
  case 4
  then show ?case by simp
qed

subsection \<open>Windows addressed by their position\<close>

text \<open>A window handle is the path from the registry to the window: the position in the
  registry, then the position in each child list.\<close>

fun getAt :: "Window list \<Rightarrow> nat list \<Rightarrow> Window option" where
  "getAt ws [] = None"
| "getAt ws [i] = (if i < length ws then Some (ws ! i) else None)"
| "getAt ws (i # j # p) = (if i < length ws then getAt (children (ws ! i)) (j # p) else None)"

fun replaceAt :: "Window list \<Rightarrow> nat list \<Rightarrow> Window \<Rightarrow> Window list" where
  "replaceAt ws [] w = ws"
| "replaceAt ws [i] w = ws[i := w]"
| "replaceAt ws (i # j # p) w =
     (if i < length ws
      then ws[i := Window (dat (ws ! i)) (replaceAt (children (ws ! i)) (j # p) w)]
      else ws)"

text \<open>The collection that holds the window at a path: the registry, or the child list of
  the parent.\<close>

fun listAt :: "Window list \<Rightarrow> nat list \<Rightarrow> Window list option" where
  "listAt ws [] = None"
| "listAt ws [i] = Some ws"
| "listAt ws (i # j # p) = (if i < length ws then listAt (children (ws ! i)) (j # p) else None)"

text \<open>The value of \<open>!parent || parent->isDrawable()\<close> for the window at a path.\<close>

fun parentDrawableAt :: "Rect \<Rightarrow> bool \<Rightarrow> Window list \<Rightarrow> nat list \<Rightarrow> bool" where
  "parentDrawableAt disp pd ws [] = pd"
| "parentDrawableAt disp pd ws [i] = pd"
| "parentDrawableAt disp pd ws (i # j # p) =
     parentDrawableAt disp (isDrawable disp pd (ws ! i)) (children (ws ! i)) (j # p)"

definition isDrawableAt :: "Rect \<Rightarrow> Window list \<Rightarrow> nat list \<Rightarrow> bool" where
  "isDrawableAt disp reg p =
     (case getAt reg p of
        None \<Rightarrow> False
      | Some w \<Rightarrow> isDrawable disp (parentDrawableAt disp True reg p) w)"

text \<open>\<open>win->destroy()\<close> for the window at a path: the window is replaced by what \<open>destroy\<close>
  leaves of it, and the calls of \<open>wm->setDirtyRect\<close> are applied to the registry. These
  calls write dirty rectangles only, which \<open>destroy\<close> neither reads nor writes.\<close>

definition destroyAt :: "nat list \<Rightarrow> WindowManager \<Rightarrow> (bool \<times> WindowManager) option" where
  "destroyAt p wm =
     (case getAt (registry wm) p of
        None \<Rightarrow> None
      | Some w \<Rightarrow>
          (case destroy (getDisplayRect wm) (radiusMetric wm)
                  (parentDrawableAt (getDisplayRect wm) True (registry wm) p) w of
             None \<Rightarrow> None
           | Some (destroyed, w', calls, gone) \<Rightarrow>
               Some (destroyed,
                     wm\<lparr>registry := foldl (\<lambda>reg r. setDirtyRect (getDisplayRect wm) r reg)
                                        (replaceAt (registry wm) p w') calls\<rparr>)))"

subsection \<open>\<open>createWindow\<close>\<close>

text \<open>
  \<open>createWindow\<close> for the base class \<open>Window\<close>. The parent is a path or \<open>None\<close> for a null
  pointer; the pre-creation hook, when there is one, is a function on the new window. The
  result is \<open>None\<close> when the call does not return, and otherwise the path of the new
  window (\<open>None\<close> for a null pointer) with the new state of the manager.
\<close>

text \<open>The steps of \<open>createWindow\<close> after the pre-creation hook: \<open>routeMessage(MSG_CREATE)\<close>,
  \<open>addChild\<close>, \<open>routeMessage(MSG_RESIZE)\<close> for an autosizing window, and \<open>redraw()\<close>.\<close>

definition resizeAndRedraw ::
  "Rect \<Rightarrow> int \<Rightarrow> bool \<Rightarrow> Window \<Rightarrow> (Window \<times> Rect list) option" where
  "resizeAndRedraw disp rm pd win =
     (case (if bitsHigh (getStyle win) STY_AUTOSIZE
            then routeMessage disp rm pd MSG_RESIZE 0 0 win
            else Some (False, win, [])) of
        None \<Rightarrow> None
      | Some (handled, win1, marks) \<Rightarrow>
          (case redraw disp pd False win1 of
             (redrawn, win2, marks') \<Rightarrow> Some (win2, marks @ marks')))"

definition createTopLevel ::
  "WindowManager \<Rightarrow> Window \<Rightarrow> (nat list option \<times> WindowManager) option" where
  "createTopLevel wm win =
     (case routeMessage (getDisplayRect wm) (radiusMetric wm) True MSG_CREATE 0 0 win of
        None \<Rightarrow> None
      | Some (handled, win1, marks) \<Rightarrow>
          if \<not> handled then Some (None, wm)
          else (case addChild (registry wm) win1 of
                  (added, reg) \<Rightarrow>
                    if \<not> added then Some (None, wm)
                    else (case resizeAndRedraw (getDisplayRect wm) (radiusMetric wm) True
                                 (last reg) of
                            None \<Rightarrow> None
                          | Some (win2, marks') \<Rightarrow>
                              Some (Some [length reg - 1],
                                    wm\<lparr>registry := butlast reg @ [win2]\<rparr>))))"

definition createChild ::
  "WindowManager \<Rightarrow> nat list \<Rightarrow> Window \<Rightarrow> (nat list option \<times> WindowManager) option" where
  "createChild wm p win =
     (case getAt (registry wm) p of
        None \<Rightarrow> None
      | Some parent \<Rightarrow>
          (let disp = getDisplayRect wm;
               pd = isDrawableAt disp (registry wm) p
           in case routeMessage disp (radiusMetric wm) pd MSG_CREATE 0 0 win of
                None \<Rightarrow> None
              | Some (handled, win1, marks) \<Rightarrow>
                  (let parent1 = foldl (\<lambda>w r. markRectDirty r w) parent marks;
                       wm1 = wm\<lparr>registry := replaceAt (registry wm) p parent1\<rparr>
                   in if \<not> handled then Some (None, wm1)
                      else (case addChild (children parent1) win1 of
                              (added, cs) \<Rightarrow>
                                if \<not> added then Some (None, wm1)
                                else (case resizeAndRedraw disp (radiusMetric wm) pd (last cs) of
                                        None \<Rightarrow> None
                                      | Some (win2, marks') \<Rightarrow>
                                          (case applyParentMarks marks'
                                                  (dat parent1, butlast cs, []) of
                                             (d, cs', e) \<Rightarrow>
                                               Some (Some (p @ [length cs - 1]),
                                                     wm\<lparr>registry :=
                                                          replaceAt (registry wm) p
                                                            (Window d (cs' @ [win2]))\<rparr>)))))))"

definition createWindow ::
  "WindowManager \<Rightarrow> nat list option \<Rightarrow> WindowID \<Rightarrow> Style \<Rightarrow> int \<Rightarrow> int \<Rightarrow> int \<Rightarrow> int \<Rightarrow>
   (Window \<Rightarrow> bool \<times> Window) option \<Rightarrow> (nat list option \<times> WindowManager) option" where
  "createWindow wm parent i sty px py w h preCreateHook =
     (if i = WID_INVALID then Some (None, wm)
      else (let disp = getDisplayRect wm;
                px' = (if bitsHigh sty STY_FULLSCREEN then 0 else px);
                py' = (if bitsHigh sty STY_FULLSCREEN then 0 else py);
                w' = (if bitsHigh sty STY_FULLSCREEN then displayWidth wm else w);
                h' = (if bitsHigh sty STY_FULLSCREEN then displayHeight wm else h);
                r = mkRect px' py' (px' + w') (py' + h')
            in case newWindow (parent \<noteq> None) i sty r of
                 None \<Rightarrow> None
               | Some win \<Rightarrow>
                   if bitsHigh sty STY_CHILD \<and> parent = None then Some (None, wm)
                   else if bitsHigh sty STY_TOPLEVEL \<and> parent \<noteq> None then Some (None, wm)
                   else (case (case preCreateHook of
                                 None \<Rightarrow> (True, win)
                               | Some hook \<Rightarrow> hook win) of
                           (hookOk, win1) \<Rightarrow>
                             if \<not> hookOk then Some (None, wm)
                             else (case parent of
                                     None \<Rightarrow> createTopLevel wm win1
                                   | Some p \<Rightarrow> createChild wm p win1))))"

text \<open>The windows of a tree, and of a list of trees, in pre-order.\<close>

fun windows :: "Window \<Rightarrow> Window list"
  and windowsList :: "Window list \<Rightarrow> Window list" where
  "windows (Window d cs) = Window d cs # windowsList cs"
| "windowsList [] = []"
| "windowsList (c # cs) = windows c @ windowsList cs"

section \<open>Example configurations\<close>

text \<open>A window manager for a 320 x 240 display with the default intervals, and a window
  given by the fields that vary between the examples.\<close>

definition exampleWM :: "Window list \<Rightarrow> WindowManager" where
  "exampleWM reg =
     \<lparr>registry = reg, state_wm = 0, displayWidth = 320, displayHeight = 240,
      radiusMetric = 0, minRenderIntervalMsec = 100, minHitTestIntervalMsec = 200,
      ssaverEpoch = 0, ssaverActivateAfter = 0, lastRenderTime = 0, lastHitTestTime = 0\<rparr>"

definition exampleWindow ::
  "WindowID \<Rightarrow> Style \<Rightarrow> State \<Rightarrow> Rect \<Rightarrow> Rect \<Rightarrow> bool \<Rightarrow> PackagedMessage list \<Rightarrow>
   Window list \<Rightarrow> Window" where
  "exampleWindow i sty st r dr p q cs =
     Window \<lparr>id_w = i, style = sty, state = st, rect = r, dirtyRect = dr, zOrder = 0,
             cornerRadius = 0, hasParent = p, queue = q\<rparr> cs"

section \<open>Properties of the geometry\<close>

lemma toCoord_id: "isCoord v \<Longrightarrow> toCoord v = v"
  unfolding isCoord_def toCoord_def by (simp add: mod_pos_pos_trivial)

lemma toCoord_toExtent_eq: "toCoord (toExtent v) = toCoord v"
  unfolding toCoord_def toExtent_def by (simp add: mod_add_left_eq)

lemma toCoord_toExtent: "isCoord v \<Longrightarrow> toCoord (toExtent v) = v"
  by (simp add: toCoord_toExtent_eq toCoord_id)

lemma mkRect_id:
  "isCoord l \<Longrightarrow> isCoord t \<Longrightarrow> isCoord r \<Longrightarrow> isCoord b \<Longrightarrow>
   mkRect l t r b = \<lparr>left = l, top_r = t, right = r, bottom = b\<rparr>"
  by (simp add: mkRect_def toCoord_toExtent toCoord_id)

lemma if_chain3:
  "(if a then True else if b then True else if c then True else False) = (a \<or> b \<or> c)"
  by simp

lemma overlapsRect_disj:
  "overlapsRect r other =
     ((((top_r r \<ge> top_r other \<and> top_r r \<le> bottom other) \<or>
        (bottom r \<le> bottom other \<and> bottom r \<ge> top_r other)) \<and>
       ((left r \<le> left other \<and> right r \<ge> left other) \<or>
        (right r \<ge> right other \<and> left r \<le> right other))) \<or>
      (((left r \<ge> left other \<and> left r \<le> right other) \<or>
        (right r \<le> right other \<and> right r \<ge> left other)) \<and>
       ((top_r r \<le> top_r other \<and> bottom r \<ge> top_r other) \<or>
        (bottom r \<ge> bottom other \<and> top_r r \<le> bottom other))) \<or>
      ((left r \<le> left other \<and> top_r r \<le> top_r other \<and>
        right r \<ge> right other \<and> bottom r \<ge> bottom other) \<or>
       (left r \<ge> left other \<and> top_r r \<ge> top_r other \<and>
        right r \<le> right other \<and> bottom r \<le> bottom other)))"
  unfolding overlapsRect_def by (rule if_chain3)

lemma overlapsRect_iff:
  assumes "left A \<le> right A" "top_r A \<le> bottom A" "left B \<le> right B" "top_r B \<le> bottom B"
  shows "overlapsRect A B \<longleftrightarrow>
    (left A \<le> right B \<and> left B \<le> right A \<and> top_r A \<le> bottom B \<and> top_r B \<le> bottom A)"
  unfolding overlapsRect_disj using assms by linarith

text \<open>For well-formed rectangles \<open>intersectsRect\<close> is the intersection test of closed
  rectangles: touching edges count.\<close>

lemma intersectsRect_iff:
  assumes "left A \<le> right A" "top_r A \<le> bottom A" "left B \<le> right B" "top_r B \<le> bottom B"
  shows "intersectsRect A B \<longleftrightarrow>
    (left A \<le> right B \<and> left B \<le> right A \<and> top_r A \<le> bottom B \<and> top_r B \<le> bottom A)"
  unfolding intersectsRect_def overlapsRect_iff[OF assms] overlapsRect_iff[OF assms(3,4,1,2)]
  by blast

lemma subtractRect_strips:
  assumes "wellFormed A" "wellFormed B" "intersectsRect A B"
  shows "subtractRect A B = strips A B"
proof -
  have c: "isCoord (left A)" "isCoord (top_r A)" "isCoord (right A)" "isCoord (bottom A)"
       "isCoord (left B)" "isCoord (top_r B)" "isCoord (right B)" "isCoord (bottom B)"
    and o: "left A \<le> right A" "top_r A \<le> bottom A" "left B \<le> right B" "top_r B \<le> bottom B"
    using assms by (auto simp: wellFormed_def)
  have i: "left A \<le> right B" "left B \<le> right A" "top_r A \<le> bottom B" "top_r B \<le> bottom A"
    using assms(3) intersectsRect_iff[OF o] by auto
  have al: "(left B \<le> min (left A) (left B)) = (left B \<le> left A)"
       "(top_r B \<le> min (top_r A) (top_r B)) = (top_r B \<le> top_r A)"
       "(max (right A) (right B) \<le> right B) = (right A \<le> right B)"
       "(max (bottom A) (bottom B) \<le> bottom B) = (bottom A \<le> bottom B)"
    by auto
  have mm: "max (min (top_r A) (top_r B)) (top_r A) = top_r A"
       "min (max (bottom A) (bottom B)) (bottom B) = bottom B"
       "min (max (bottom A) (bottom B)) (top_r B) = top_r B"
       "min (max (bottom A) (bottom B)) (bottom A) = bottom A"
       "min (max (right A) (right B)) (right B) = right B"
       "max (min (left A) (left B)) (left A) = left A"
       "min (max (right A) (right B)) (right A) = right A"
       "max (min (left A) (left B)) (left B) = left B"
    using o by auto
  show ?thesis
  proof (cases "\<not> left B \<le> left A \<and> \<not> top_r B \<le> top_r A \<and> \<not> right A \<le> right B \<and> \<not> bottom A \<le> bottom B")
    case True
    then have e: "min (left B) (left A) = left A" "min (top_r B) (top_r A) = top_r A"
      "max (left B) (left A) = left B" "max (bottom B) (bottom A) = bottom A"
      "max (right B) (right A) = right A" "max (top_r B) (top_r A) = top_r B"
      "min (right B) (right A) = right B" "min (bottom B) (bottom A) = bottom B"
      by auto
    show ?thesis
      unfolding subtractRect_def strips_def mergeRect_def Let_def
      using True
      by (simp add: assms(3) al mm e mkRect_id c o i)
  next
    case False
    show ?thesis
      unfolding subtractRect_def strips_def mergeRect_def Let_def
      using False
      by (simp add: assms(3) al mm mkRect_id c o i)
  qed
qed

lemma in_pixels:
  "(x, y) \<in> pixels R \<longleftrightarrow> left R \<le> x \<and> x < right R \<and> top_r R \<le> y \<and> y < bottom R"
  by (simp add: pixels_def)

lemma strips_point:
  assumes o: "left A \<le> right A" "top_r A \<le> bottom A" "left B \<le> right B" "top_r B \<le> bottom B"
    and i: "left A \<le> right B" "left B \<le> right A" "top_r A \<le> bottom B" "top_r B \<le> bottom A"
  shows "(\<exists>r \<in> set (strips A B). (x, y) \<in> pixels r) \<longleftrightarrow>
         ((x, y) \<in> pixels A \<and> (x, y) \<notin> pixels B)"
  unfolding strips_def Let_def in_pixels
  apply (cases "left B \<le> left A"; cases "top_r B \<le> top_r A";
         cases "right A \<le> right B"; cases "bottom A \<le> bottom B")
  using o i apply simp_all
  apply linarith+
  done

lemma subtractRect_union:
  assumes "wellFormed A" "wellFormed B" "intersectsRect A B"
  shows "(\<Union>r \<in> set (subtractRect A B). pixels r) = pixels A - pixels B"
proof -
  have o: "left A \<le> right A" "top_r A \<le> bottom A" "left B \<le> right B" "top_r B \<le> bottom B"
    using assms by (auto simp: wellFormed_def)
  have i: "left A \<le> right B" "left B \<le> right A" "top_r A \<le> bottom B" "top_r B \<le> bottom A"
    using assms(3) intersectsRect_iff[OF o] by auto
  have "p \<in> (\<Union>r \<in> set (strips A B). pixels r) \<longleftrightarrow> p \<in> pixels A - pixels B" for p
    using strips_point[OF o i, of "fst p" "snd p"] by simp
  then show ?thesis
    unfolding subtractRect_strips[OF assms] by blast
qed

lemma withinRect_iff:
  assumes "left A \<le> right A" "top_r A \<le> bottom A"
  shows "withinRect A B \<longleftrightarrow>
    (left B \<le> left A \<and> right A \<le> right B \<and> top_r B \<le> top_r A \<and> bottom A \<le> bottom B)"
  unfolding withinRect_def pointWithin_def using assms by linarith

lemma subtractRect_within:
  assumes "wellFormed A" "wellFormed B" "withinRect A B"
  shows "subtractRect A B = []"
proof -
  have o: "left A \<le> right A" "top_r A \<le> bottom A" "left B \<le> right B" "top_r B \<le> bottom B"
    using assms by (auto simp: wellFormed_def)
  have w: "left B \<le> left A" "right A \<le> right B" "top_r B \<le> top_r A" "bottom A \<le> bottom B"
    using assms(3) withinRect_iff[OF o(1,2)] by auto
  have "intersectsRect A B"
    unfolding intersectsRect_iff[OF o] using o w by linarith
  then show ?thesis
    unfolding subtractRect_strips[OF assms(1,2) \<open>intersectsRect A B\<close>] strips_def Let_def
    using w by simp
qed

text \<open>Rectangles that do not intersect: the source pushes nothing.\<close>

lemma subtractRect_disjoint: "\<not> intersectsRect A B \<Longrightarrow> subtractRect A B = []"
  by (simp add: subtractRect_def)

section \<open>Claims about the geometry\<close>

text \<open>
  Claim C1, as amended. For well-formed rectangles \<open>A\<close> and \<open>B\<close> that intersect
  (touching edges included), the pixels of the rectangles returned by
  \<open>Rect::subtractRect\<close> are together exactly the pixels of \<open>A\<close> that are not pixels of
  \<open>B\<close>, and every returned rectangle lies inside \<open>A\<close>; the returned rectangles may
  overlap one another. If all four corners of \<open>A\<close> lie within \<open>B\<close> the result is empty.
\<close>

theorem subtractRect_covers_difference:
  assumes "wellFormed A" and "wellFormed B"
  shows "(intersectsRect A B \<longrightarrow>
            (\<Union>r \<in> set (subtractRect A B). pixels r) = pixels A - pixels B \<and>
            (\<forall>r \<in> set (subtractRect A B). pixels r \<subseteq> pixels A)) \<and>
         (withinRect A B \<longrightarrow> subtractRect A B = [])"
proof (intro conjI impI)
  assume i: "intersectsRect A B"
  show u: "(\<Union>r \<in> set (subtractRect A B). pixels r) = pixels A - pixels B"
    by (rule subtractRect_union[OF assms i])
  show "\<forall>r \<in> set (subtractRect A B). pixels r \<subseteq> pixels A"
    using u by blast
next
  assume "withinRect A B"
  then show "subtractRect A B = []"
    by (rule subtractRect_within[OF assms])
qed

theorem subtractRect_covers_difference_witness:
  "wellFormed \<lparr>left = 0, top_r = 0, right = 100, bottom = 100\<rparr> \<and>
   wellFormed \<lparr>left = 50, top_r = 50, right = 150, bottom = 150\<rparr> \<and>
   intersectsRect \<lparr>left = 0, top_r = 0, right = 100, bottom = 100\<rparr>
                  \<lparr>left = 50, top_r = 50, right = 150, bottom = 150\<rparr> \<and>
   (\<Union>r \<in> set (subtractRect \<lparr>left = 0, top_r = 0, right = 100, bottom = 100\<rparr>
                               \<lparr>left = 50, top_r = 50, right = 150, bottom = 150\<rparr>). pixels r) =
     pixels \<lparr>left = 0, top_r = 0, right = 100, bottom = 100\<rparr> -
     pixels \<lparr>left = 50, top_r = 50, right = 150, bottom = 150\<rparr> \<and>
   wellFormed \<lparr>left = 10, top_r = 10, right = 20, bottom = 20\<rparr> \<and>
   withinRect \<lparr>left = 10, top_r = 10, right = 20, bottom = 20\<rparr>
              \<lparr>left = 0, top_r = 0, right = 100, bottom = 100\<rparr> \<and>
   subtractRect \<lparr>left = 10, top_r = 10, right = 20, bottom = 20\<rparr>
                \<lparr>left = 0, top_r = 0, right = 100, bottom = 100\<rparr> = []"
proof -
  have a: "wellFormed \<lparr>left = 0, top_r = 0, right = 100, bottom = 100\<rparr>"
    and b: "wellFormed \<lparr>left = 50, top_r = 50, right = 150, bottom = 150\<rparr>"
    and c: "wellFormed \<lparr>left = 10, top_r = 10, right = 20, bottom = 20\<rparr>"
    by (simp_all add: wellFormed_def isCoord_def)
  have i: "intersectsRect \<lparr>left = 0, top_r = 0, right = 100, bottom = 100\<rparr>
                          \<lparr>left = 50, top_r = 50, right = 150, bottom = 150\<rparr>"
    by (simp add: intersectsRect_def overlapsRect_def)
  have w: "withinRect \<lparr>left = 10, top_r = 10, right = 20, bottom = 20\<rparr>
                      \<lparr>left = 0, top_r = 0, right = 100, bottom = 100\<rparr>"
    by (simp add: withinRect_def pointWithin_def)
  show ?thesis
    using subtractRect_covers_difference[OF a b] subtractRect_covers_difference[OF c a] a b c i w
    by blast
qed

text \<open>
  Claim C1 as stated fails: for \<open>A = (0,0,100,100)\<close> and \<open>B = (50,50,150,150)\<close> the two
  returned rectangles are different and both contain the pixel \<open>(0,0)\<close>, so they are not
  pairwise disjoint.
\<close>

theorem subtractRect_overlap_counterexample:
  "subtractRect \<lparr>left = 0, top_r = 0, right = 100, bottom = 100\<rparr>
                \<lparr>left = 50, top_r = 50, right = 150, bottom = 150\<rparr> =
     [\<lparr>left = 0, top_r = 0, right = 50, bottom = 100\<rparr>,
      \<lparr>left = 0, top_r = 0, right = 100, bottom = 50\<rparr>] \<and>
   (0, 0) \<in> pixels \<lparr>left = 0, top_r = 0, right = 50, bottom = 100\<rparr> \<and>
   (0, 0) \<in> pixels \<lparr>left = 0, top_r = 0, right = 100, bottom = 50\<rparr>"
  by (simp add: subtractRect_def intersectsRect_def overlapsRect_def mergeRect_def Let_def
      mkRect_def toCoord_def toExtent_def pixels_def)

section \<open>The z-order registry\<close>

lemma getID_setZOrder [simp]: "getID (setZOrder z w) = getID w"
  by (simp add: setZOrder_def)

lemma getZOrder_setZOrder [simp]: "getZOrder (setZOrder z w) = z"
  by (simp add: setZOrder_def)

lemma length_recalc [simp]: "length (recalc z c) = length c"
  by (induction c arbitrary: z) auto

lemma ids_recalc [simp]: "map getID (recalc z c) = map getID c"
  by (induction c arbitrary: z) auto

lemma zorders_recalc:
  "map getZOrder (recalc z c) = map (\<lambda>i. z + of_nat i) [0..<length c]"
proof (induction c arbitrary: z)
  case Nil
  then show ?case by simp
next
  case (Cons w c)
  have "[0..<length (w # c)] = 0 # map Suc [0..<length c]"
    by (simp add: upt_conv_Cons map_Suc_upt del: upt_Suc)
  then show ?case
    using Cons.IH[of "z + 1"] by (simp add: o_def add.assoc del: upt_Suc)
qed

lemma zinv_recalc: "distinct (map getID c) \<Longrightarrow> zinv (recalculateZOrder c)"
  by (simp add: zinv_def recalculateZOrder_def zorders_recalc)

lemma getChildByID_None: "getChildByID c i = None \<longleftrightarrow> i \<notin> set (map getID c)"
  by (auto simp: getChildByID_def find_None_iff)

lemma eraseByID_None: "eraseByID i c = None \<longleftrightarrow> i \<notin> set (map getID c)"
  by (induction c) auto

lemma eraseByID_ids: "eraseByID i c = Some c' \<Longrightarrow> map getID c' = remove1 i (map getID c)"
  by (induction c arbitrary: c') (auto split: if_splits)

lemma distinct_ids_length:
  assumes "distinct (map getID c)"
  shows "length c \<le> 256"
proof -
  have "length c = card (set (map getID c))"
    using assms distinct_card[of "map getID c"] by simp
  also have "\<dots> \<le> card (UNIV :: 8 word set)"
    by (rule card_mono) auto
  also have "\<dots> = 256"
    by (simp add: card_word)
  finally show ?thesis .
qed

lemma zinv_unat:
  assumes "zinv c"
  shows "map (unat \<circ> getZOrder) c = [0..<length c]"
proof -
  have len: "length c \<le> 256"
    using assms distinct_ids_length by (simp add: zinv_def)
  have "map (unat \<circ> getZOrder) c = map unat (map getZOrder c)"
    by simp
  also have "\<dots> = map unat (map (of_nat :: nat \<Rightarrow> 8 word) [0..<length c])"
    using assms by (simp add: zinv_def)
  also have "\<dots> = map (\<lambda>i. i) [0..<length c]"
    unfolding map_map
  proof (rule map_cong[OF refl])
    fix i assume "i \<in> set [0..<length c]"
    then have "i < 256" using len by simp
    then show "(unat \<circ> (of_nat :: nat \<Rightarrow> 8 word)) i = i"
      by (simp add: unat_of_nat)
  qed
  finally show ?thesis by simp
qed

lemma last_zorder:
  assumes "zinv c" "c \<noteq> []"
  shows "getZOrder (last c) = of_nat (length c - 1)"
proof -
  have "getZOrder (last c) = last (map getZOrder c)"
    using assms(2) by (simp add: last_map)
  also have "\<dots> = last (map (of_nat :: nat \<Rightarrow> 8 word) [0..<length c])"
    using assms(1) by (simp add: zinv_def)
  also have "\<dots> = of_nat (length c - 1)"
    using assms(2) by (cases c rule: rev_cases) simp_all
  finally show ?thesis .
qed

lemma addChild_new:
  assumes "zinv c" "getChildByID c (getID w) = None"
  shows "addChild c w = (True, c @ [setZOrder (of_nat (length c)) w])"
proof (cases "c = []")
  case True
  then show ?thesis using assms by (simp add: addChild_def)
next
  case False
  then have "0 < length c" by simp
  then have "(of_nat (length c - 1) :: 8 word) + 1 = of_nat (length c)"
    by (metis Suc_pred' of_nat_Suc add.commute)
  then show ?thesis
    using assms False by (simp add: addChild_def last_zorder)
qed

lemma zinv_addChild:
  assumes "zinv c"
  shows "zinv (snd (addChild c w))"
proof (cases "getChildByID c (getID w) = None")
  case True
  have "getID w \<notin> set (map getID c)"
    using True getChildByID_None by blast
  then show ?thesis
    using assms unfolding addChild_new[OF assms True] by (simp add: zinv_def)
next
  case False
  then show ?thesis using assms by (simp add: addChild_def)
qed

lemma zinv_removeChildByID:
  assumes "zinv c"
  shows "zinv (snd (removeChildByID c i))"
proof (cases "eraseByID i c")
  case None
  then show ?thesis using assms by (simp add: removeChildByID_def)
next
  case (Some c')
  have "distinct (map getID c')"
    using eraseByID_ids[OF Some] assms by (simp add: zinv_def)
  then show ?thesis
    using Some by (simp add: removeChildByID_def zinv_recalc)
qed

lemma zinv_setForegroundWindow:
  assumes "zinv c"
  shows "zinv (snd (setForegroundWindow c w))"
proof (cases "\<not> hasParent (dat w) \<and> bitsHigh (getStyle w) STY_TOPLEVEL")
  case False
  then show ?thesis using assms by (auto simp: setForegroundWindow_def)
next
  case True
  show ?thesis
  proof (cases "eraseByID (getID w) c")
    case None
    then show ?thesis using assms True by (simp add: setForegroundWindow_def)
  next
    case (Some c')
    have d: "distinct (map getID c)" using assms by (simp add: zinv_def)
    have "map getID (c' @ [w]) = remove1 (getID w) (map getID c) @ [getID w]"
      using eraseByID_ids[OF Some] by simp
    moreover have "getID w \<notin> set (remove1 (getID w) (map getID c))"
      using d by simp
    ultimately have "distinct (map getID (c' @ [w]))"
      using d by simp
    then show ?thesis
      using Some True by (simp add: setForegroundWindow_def zinv_recalc)
  qed
qed

lemma zinv_applyOp: "zinv c \<Longrightarrow> zinv (applyOp c op)"
  by (cases op) (simp_all add: zinv_addChild zinv_removeChildByID zinv_setForegroundWindow)

lemma zinv_foldl: "zinv c \<Longrightarrow> zinv (foldl applyOp c ops)"
  by (induction ops arbitrary: c) (simp_all add: zinv_applyOp)

lemma zinv_runOps: "zinv (runOps ops)"
  unfolding runOps_def by (rule zinv_foldl) (simp add: zinv_def)

lemma Max_upt: "0 < n \<Longrightarrow> Max (set [0..<n]) = n - 1"
  by (cases n) (auto intro!: Max_eqI)

section \<open>Claims about the z-order registry\<close>

text \<open>
  Claim C3. Let \<open>c\<close> be the container reached from the empty one by any sequence of
  \<open>addChild\<close>, \<open>removeChildByID\<close> and \<open>setForegroundWindow\<close>. The ids in \<open>c\<close> are unique
  and the z-order of the window at position \<open>i\<close> of the iteration order is \<open>i\<close>.
  \<open>addChild\<close> rejects a window whose id is present and otherwise appends it with z-order
  \<open>length c\<close>, which is the largest z-order plus one when \<open>c\<close> is not empty.
  \<open>removeChildByID\<close> succeeds iff the id is present, removes that window and leaves the
  z-orders contiguous. \<open>setForegroundWindow\<close> succeeds iff the window has no parent, has
  style \<open>STY_TOPLEVEL\<close> and its id is present; it then moves the window to the end and
  leaves the z-orders contiguous, and otherwise changes nothing.
\<close>

theorem zorder_contiguity:
  assumes "c = runOps ops"
  shows "map (unat \<circ> getZOrder) c = [0..<length c] \<and> distinct (map getID c) \<and>
         (getID w \<in> set (map getID c) \<longrightarrow> addChild c w = (False, c)) \<and>
         (getID w \<notin> set (map getID c) \<longrightarrow>
            addChild c w = (True, c @ [setZOrder (of_nat (length c)) w]) \<and>
            unat (of_nat (length c) :: 8 word) = length c \<and>
            (c \<noteq> [] \<longrightarrow> length c = Max (set (map (unat \<circ> getZOrder) c)) + 1)) \<and>
         fst (removeChildByID c i) = (i \<in> set (map getID c)) \<and>
         map getID (snd (removeChildByID c i)) = remove1 i (map getID c) \<and>
         map (unat \<circ> getZOrder) (snd (removeChildByID c i)) =
           [0..<length (snd (removeChildByID c i))] \<and>
         fst (setForegroundWindow c w) =
           (\<not> hasParent (dat w) \<and> bitsHigh (getStyle w) STY_TOPLEVEL \<and>
            getID w \<in> set (map getID c)) \<and>
         (fst (setForegroundWindow c w) \<longrightarrow>
            map getID (snd (setForegroundWindow c w)) =
              remove1 (getID w) (map getID c) @ [getID w]) \<and>
         (\<not> fst (setForegroundWindow c w) \<longrightarrow> snd (setForegroundWindow c w) = c) \<and>
         map (unat \<circ> getZOrder) (snd (setForegroundWindow c w)) =
           [0..<length (snd (setForegroundWindow c w))]"
proof -
  have z: "zinv c"
    using assms zinv_runOps by simp
  have zu: "map (unat \<circ> getZOrder) c = [0..<length c]"
    by (rule zinv_unat[OF z])
  have d: "distinct (map getID c)"
    using z by (simp add: zinv_def)
  have a1: "addChild c w = (False, c)" if "getID w \<in> set (map getID c)"
    using that getChildByID_None[of c "getID w"] by (simp add: addChild_def)
  have a2: "addChild c w = (True, c @ [setZOrder (of_nat (length c)) w]) \<and>
            unat (of_nat (length c) :: 8 word) = length c \<and>
            (c \<noteq> [] \<longrightarrow> length c = Max (set (map (unat \<circ> getZOrder) c)) + 1)"
    if n: "getID w \<notin> set (map getID c)"
  proof -
    have g: "getChildByID c (getID w) = None"
      using n getChildByID_None by blast
    have "distinct (map getID (c @ [w]))"
      using d n by simp
    then have "length (c @ [w]) \<le> 256"
      by (rule distinct_ids_length)
    then have "length c < 256" by simp
    then have u: "unat (of_nat (length c) :: 8 word) = length c"
      by (simp add: unat_of_nat)
    have "length c = Max (set (map (unat \<circ> getZOrder) c)) + 1" if "c \<noteq> []"
      using that Max_upt[of "length c"] unfolding zu by simp
    then show ?thesis
      using addChild_new[OF z g] u by simp
  qed
  have r1: "fst (removeChildByID c i) = (i \<in> set (map getID c))"
    using eraseByID_None[of i c] by (cases "eraseByID i c") (auto simp: removeChildByID_def)
  have r2: "map getID (snd (removeChildByID c i)) = remove1 i (map getID c)"
  proof (cases "eraseByID i c")
    case None
    then have "i \<notin> set (map getID c)" using eraseByID_None by blast
    then show ?thesis using None by (simp add: removeChildByID_def remove1_idem)
  next
    case (Some c')
    then show ?thesis
      using eraseByID_ids[OF Some] by (simp add: removeChildByID_def recalculateZOrder_def)
  qed
  have r3: "map (unat \<circ> getZOrder) (snd (removeChildByID c i)) =
           [0..<length (snd (removeChildByID c i))]"
    by (rule zinv_unat[OF zinv_removeChildByID[OF z]])
  have f1: "fst (setForegroundWindow c w) =
           (\<not> hasParent (dat w) \<and> bitsHigh (getStyle w) STY_TOPLEVEL \<and>
            getID w \<in> set (map getID c))"
    using eraseByID_None[of "getID w" c]
    by (cases "eraseByID (getID w) c") (auto simp: setForegroundWindow_def)
  have f2: "map getID (snd (setForegroundWindow c w)) =
              remove1 (getID w) (map getID c) @ [getID w]" if "fst (setForegroundWindow c w)"
  proof (cases "eraseByID (getID w) c")
    case None
    then show ?thesis using that by (simp add: setForegroundWindow_def split: if_splits)
  next
    case (Some c')
    then show ?thesis
      using that eraseByID_ids[OF Some]
      by (simp add: setForegroundWindow_def recalculateZOrder_def split: if_splits)
  qed
  have f3: "snd (setForegroundWindow c w) = c" if "\<not> fst (setForegroundWindow c w)"
    using that
    by (cases "eraseByID (getID w) c") (auto simp: setForegroundWindow_def split: if_splits)
  have f4: "map (unat \<circ> getZOrder) (snd (setForegroundWindow c w)) =
           [0..<length (snd (setForegroundWindow c w))]"
    by (rule zinv_unat[OF zinv_setForegroundWindow[OF z]])
  show ?thesis
    using zu d a1 a2 r1 r2 r3 f1 f2 f3 f4 by blast
qed

theorem zorder_contiguity_witness:
  "runOps [AddChild (initWindow False 1 STY_TOPLEVEL Rect0),
           AddChild (initWindow False 2 STY_TOPLEVEL Rect0),
           AddChild (initWindow False 3 STY_TOPLEVEL Rect0),
           SetForegroundWindow (initWindow False 1 STY_TOPLEVEL Rect0),
           RemoveChildByID 2] =
     [setZOrder 0 (initWindow False 3 STY_TOPLEVEL Rect0),
      setZOrder 1 (initWindow False 1 STY_TOPLEVEL Rect0)] \<and>
   addChild [setZOrder 0 (initWindow False 3 STY_TOPLEVEL Rect0),
             setZOrder 1 (initWindow False 1 STY_TOPLEVEL Rect0)]
            (initWindow False 3 STY_TOPLEVEL Rect0) =
     (False, [setZOrder 0 (initWindow False 3 STY_TOPLEVEL Rect0),
              setZOrder 1 (initWindow False 1 STY_TOPLEVEL Rect0)]) \<and>
   addChild [setZOrder 0 (initWindow False 3 STY_TOPLEVEL Rect0),
             setZOrder 1 (initWindow False 1 STY_TOPLEVEL Rect0)]
            (initWindow False 7 STY_TOPLEVEL Rect0) =
     (True, [setZOrder 0 (initWindow False 3 STY_TOPLEVEL Rect0),
             setZOrder 1 (initWindow False 1 STY_TOPLEVEL Rect0),
             setZOrder 2 (initWindow False 7 STY_TOPLEVEL Rect0)]) \<and>
   fst (setForegroundWindow [setZOrder 0 (initWindow False 3 STY_TOPLEVEL Rect0),
                             setZOrder 1 (initWindow False 1 STY_TOPLEVEL Rect0)]
                            (initWindow False 3 STY_TOPLEVEL Rect0)) \<and>
   map getID (snd (setForegroundWindow [setZOrder 0 (initWindow False 3 STY_TOPLEVEL Rect0),
                                        setZOrder 1 (initWindow False 1 STY_TOPLEVEL Rect0)]
                                       (initWindow False 3 STY_TOPLEVEL Rect0))) = [1, 3] \<and>
   \<not> fst (setForegroundWindow [setZOrder 0 (initWindow False 3 STY_TOPLEVEL Rect0),
                               setZOrder 1 (initWindow False 1 STY_TOPLEVEL Rect0)]
                              (initWindow True 3 STY_TOPLEVEL Rect0))"
proof -
  let ?ops = "[AddChild (initWindow False 1 STY_TOPLEVEL Rect0),
           AddChild (initWindow False 2 STY_TOPLEVEL Rect0),
           AddChild (initWindow False 3 STY_TOPLEVEL Rect0),
           SetForegroundWindow (initWindow False 1 STY_TOPLEVEL Rect0),
           RemoveChildByID 2]"
  let ?c = "[setZOrder 0 (initWindow False 3 STY_TOPLEVEL Rect0),
      setZOrder 1 (initWindow False 1 STY_TOPLEVEL Rect0)]"
  have c: "?c = runOps ?ops"
    by (simp add: runOps_def addChild_def removeChildByID_def setForegroundWindow_def
        getChildByID_def recalculateZOrder_def initWindow_def setZOrder_def bitsHigh_def
        STY_TOPLEVEL_def STY_FRAME_def STY_SHADOW_def)
  have i: "getID (initWindow False 3 STY_TOPLEVEL Rect0) \<in> set (map getID ?c)"
          "getID (initWindow True 3 STY_TOPLEVEL Rect0) \<in> set (map getID ?c)"
          "getID (initWindow False 7 STY_TOPLEVEL Rect0) \<notin> set (map getID ?c)"
          "\<not> hasParent (dat (initWindow False 3 STY_TOPLEVEL Rect0))"
          "hasParent (dat (initWindow True 3 STY_TOPLEVEL Rect0))"
          "bitsHigh (getStyle (initWindow False 3 STY_TOPLEVEL Rect0)) STY_TOPLEVEL"
    by (simp_all add: initWindow_def setZOrder_def bitsHigh_def)
  have m: "map getID ?c = [3, 1]"
    by (simp add: initWindow_def setZOrder_def)
  show ?thesis
    using zorder_contiguity[OF c, of "initWindow False 3 STY_TOPLEVEL Rect0" 2]
      zorder_contiguity[OF c, of "initWindow False 7 STY_TOPLEVEL Rect0" 2]
      zorder_contiguity[OF c, of "initWindow True 3 STY_TOPLEVEL Rect0" 2]
      i m
    by (simp add: c[symmetric])
qed

section \<open>Claims about the message queue and the dirty rectangle\<close>

lemma getMsgParamLoWord_unat: "unat (getMsgParamLoWord q) = unat q mod 65536"
proof -
  have "q AND 0xffff = take_bit 16 q"
    by (simp add: take_bit_eq_mask mask_eq_exp_minus_1)
  then have "unat (getMsgParamLoWord q) = unat (ucast (take_bit 16 q) :: 16 word)"
    by (simp only: getMsgParamLoWord_def)
  also have "\<dots> = take_bit 16 (unat q)"
    by (simp only: unsigned_ucast_eq unsigned_take_bit_eq) simp
  also have "\<dots> = unat q mod 65536"
    by (simp add: take_bit_eq_mod)
  finally show ?thesis .
qed

lemma getMsgParamLoWord_tap: "getMsgParamLoWord q = INPUT_TAP \<longleftrightarrow> unat q mod 65536 = 1"
proof -
  have "getMsgParamLoWord q = INPUT_TAP \<longleftrightarrow> unat (getMsgParamLoWord q) = unat INPUT_TAP"
    by (simp add: word_unat_eq_iff)
  then show ?thesis
    by (simp add: getMsgParamLoWord_unat INPUT_TAP_def)
qed

text \<open>
  Claim C10. \<open>Window::queueMessage\<close> appends exactly one entry, the packaged message, to
  the FIFO of the window, whatever the message, and changes nothing else; it returns true
  iff the message is \<open>MSG_INPUT\<close> and the low 16 bits of \<open>p1\<close> are \<open>INPUT_TAP\<close> (= 1).
\<close>

theorem queueMessage_enqueues_and_reports_tap:
  "getQueue (snd (queueMessage m q1 q2 w)) = getQueue w @ [\<lparr>msg = m, p1 = q1, p2 = q2\<rparr>] \<and>
   length (getQueue (snd (queueMessage m q1 q2 w))) = length (getQueue w) + 1 \<and>
   snd (queueMessage m q1 q2 w) =
     Window ((dat w)\<lparr>queue := getQueue w @ [\<lparr>msg = m, p1 = q1, p2 = q2\<rparr>]\<rparr>) (children w) \<and>
   fst (queueMessage m q1 q2 w) = (m = MSG_INPUT \<and> unat q1 mod 65536 = 1)"
  by (simp add: queueMessage_def Let_def getMsgParamLoWord_tap)

text \<open>
  Claim C8. Let \<open>r\<close> be a well-formed, non-empty rectangle whose corners lie within the
  rectangle of the window. \<open>markRectDirty\<close> changes only the dirty rectangle, one edge at a time: the left
  (top) edge becomes that of \<open>r\<close> when \<open>r\<close> is further left (up) or when the edge is 0,
  read as unset; the right (bottom) edge becomes that of \<open>r\<close> when \<open>r\<close> is further right
  (down). So a left or top edge that is not 0 never moves right or down, the right and
  bottom edges never move left or up, and when no edge of the dirty rectangle is 0 every
  point of the old dirty rectangle is a point of the new one.
\<close>

theorem markRectDirty_only_grows:
  assumes "\<not> empty_r r" and "withinRect r (getRect w)" and "w' = markRectDirty r w"
    and "wellFormed r"
  shows "children w' = children w \<and> dat w' = (dat w)\<lparr>dirtyRect := getDirtyRect w'\<rparr> \<and>
         left (getDirtyRect w') =
           (if left r < left (getDirtyRect w) \<or> left (getDirtyRect w) = 0
            then left r else left (getDirtyRect w)) \<and>
         top_r (getDirtyRect w') =
           (if top_r r < top_r (getDirtyRect w) \<or> top_r (getDirtyRect w) = 0
            then top_r r else top_r (getDirtyRect w)) \<and>
         right (getDirtyRect w') = max (right (getDirtyRect w)) (right r) \<and>
         bottom (getDirtyRect w') = max (bottom (getDirtyRect w)) (bottom r) \<and>
         (left (getDirtyRect w) \<noteq> 0 \<longrightarrow> left (getDirtyRect w') \<le> left (getDirtyRect w)) \<and>
         (top_r (getDirtyRect w) \<noteq> 0 \<longrightarrow> top_r (getDirtyRect w') \<le> top_r (getDirtyRect w)) \<and>
         right (getDirtyRect w) \<le> right (getDirtyRect w') \<and>
         bottom (getDirtyRect w) \<le> bottom (getDirtyRect w') \<and>
         (left (getDirtyRect w) \<noteq> 0 \<and> top_r (getDirtyRect w) \<noteq> 0 \<and>
          right (getDirtyRect w) \<noteq> 0 \<and> bottom (getDirtyRect w) \<noteq> 0 \<longrightarrow>
            (\<forall>px py. pointWithin (getDirtyRect w) px py \<longrightarrow>
                     pointWithin (getDirtyRect w') px py))"
proof (cases w)
  case (Window d cs)
  have wr: "left (rect d) \<le> left r" "top_r (rect d) \<le> top_r r"
           "right r \<le> right (rect d)" "bottom r \<le> bottom (rect d)"
    using assms(2) Window by (auto simp: withinRect_def pointWithin_def)
  have e: "w' = Window (d\<lparr>dirtyRect :=
              \<lparr>left = (if left r < left (dirtyRect d) \<or> left (dirtyRect d) = 0
                        then left r else left (dirtyRect d)),
               top_r = (if top_r r < top_r (dirtyRect d) \<or> top_r (dirtyRect d) = 0
                        then top_r r else top_r (dirtyRect d)),
               right = max (right (dirtyRect d)) (right r),
               bottom = max (bottom (dirtyRect d)) (bottom r)\<rparr>\<rparr>) cs"
    using assms(1,3) wr unfolding Window by (simp add: Let_def max_def)
  show ?thesis
    unfolding e Window by (simp add: pointWithin_def) linarith
qed

theorem markRectDirty_only_grows_witness:
  "wellFormed \<lparr>left = 15, top_r = 30, right = 60, bottom = 40\<rparr> \<and>
   \<not> empty_r \<lparr>left = 15, top_r = 30, right = 60, bottom = 40\<rparr> \<and>
   withinRect \<lparr>left = 15, top_r = 30, right = 60, bottom = 40\<rparr>
     (getRect (Window \<lparr>id_w = 1, style = 1, state = 1,
        rect = \<lparr>left = 10, top_r = 10, right = 100, bottom = 100\<rparr>,
        dirtyRect = \<lparr>left = 20, top_r = 20, right = 50, bottom = 50\<rparr>,
        zOrder = 0, cornerRadius = 0, hasParent = False, queue = []\<rparr> [])) \<and>
   getDirtyRect (markRectDirty \<lparr>left = 15, top_r = 30, right = 60, bottom = 40\<rparr>
     (Window \<lparr>id_w = 1, style = 1, state = 1,
        rect = \<lparr>left = 10, top_r = 10, right = 100, bottom = 100\<rparr>,
        dirtyRect = \<lparr>left = 20, top_r = 20, right = 50, bottom = 50\<rparr>,
        zOrder = 0, cornerRadius = 0, hasParent = False, queue = []\<rparr> [])) =
     \<lparr>left = 15, top_r = 20, right = 60, bottom = 50\<rparr> \<and>
   pointWithin \<lparr>left = 20, top_r = 20, right = 50, bottom = 50\<rparr> 20 50 \<and>
   pointWithin (getDirtyRect (markRectDirty \<lparr>left = 15, top_r = 30, right = 60, bottom = 40\<rparr>
     (Window \<lparr>id_w = 1, style = 1, state = 1,
        rect = \<lparr>left = 10, top_r = 10, right = 100, bottom = 100\<rparr>,
        dirtyRect = \<lparr>left = 20, top_r = 20, right = 50, bottom = 50\<rparr>,
        zOrder = 0, cornerRadius = 0, hasParent = False, queue = []\<rparr> []))) 20 50"
proof -
  let ?r = "\<lparr>left = 15, top_r = 30, right = 60, bottom = 40\<rparr>"
  let ?w = "Window \<lparr>id_w = 1, style = 1, state = 1,
        rect = \<lparr>left = 10, top_r = 10, right = 100, bottom = 100\<rparr>,
        dirtyRect = \<lparr>left = 20, top_r = 20, right = 50, bottom = 50\<rparr>,
        zOrder = 0, cornerRadius = 0, hasParent = False, queue = []\<rparr> []"
  have a: "\<not> empty_r ?r"
    by (simp add: empty_r_def width_def height_def toExtent_def)
  have b: "withinRect ?r (getRect ?w)"
    by (simp add: withinRect_def pointWithin_def)
  have c: "wellFormed ?r"
    by (simp add: wellFormed_def isCoord_def)
  have p: "pointWithin (getDirtyRect ?w) 20 50"
    by (simp add: pointWithin_def)
  have q: "getDirtyRect (markRectDirty ?r ?w) = \<lparr>left = 15, top_r = 20, right = 60, bottom = 50\<rparr>"
    using markRectDirty_only_grows[OF a b refl c] by (cases "getDirtyRect (markRectDirty ?r ?w)") simp
  show ?thesis
    using markRectDirty_only_grows[OF a b refl c] a b c p q by simp
qed

section \<open>Hit testing\<close>

lemma oneMore_hd: "oneMore m (q # qs) ((q @ [m]) # qs)"
  unfolding oneMore_def by (rule exI[of _ 0]) simp

lemma oneMore_Cons: "oneMore m qs qs' \<Longrightarrow> oneMore m (q # qs) (q # qs')"
  unfolding oneMore_def
proof (elim exE conjE)
  fix i assume "i < length qs" "qs' = qs[i := qs ! i @ [m]]"
  then show "\<exists>j < length (q # qs). q # qs' = (q # qs)[j := (q # qs) ! j @ [m]]"
    by (intro exI[of _ "Suc i"]) simp
qed

lemma oneMore_append1: "oneMore m a a' \<Longrightarrow> oneMore m (a @ b) (a' @ b)"
  unfolding oneMore_def
proof (elim exE conjE)
  fix i assume "i < length a" "a' = a[i := a ! i @ [m]]"
  then show "\<exists>j < length (a @ b). a' @ b = (a @ b)[j := (a @ b) ! j @ [m]]"
    by (intro exI[of _ i]) (simp add: list_update_append nth_append)
qed

lemma oneMore_append2: "oneMore m b b' \<Longrightarrow> oneMore m (a @ b) (a @ b')"
  unfolding oneMore_def
proof (elim exE conjE)
  fix i assume "i < length b" "b' = b[i := b ! i @ [m]]"
  then show "\<exists>j < length (a @ b). a @ b' = (a @ b)[j := (a @ b) ! j @ [m]]"
    by (intro exI[of _ "length a + i"]) (simp add: list_update_append nth_append)
qed

lemma tap_claimed: "getMsgParamLoWord (makeMsgParam 0 INPUT_TAP) = INPUT_TAP"
  by (simp add: getMsgParamLoWord_def makeMsgParam_def INPUT_TAP_def)

lemma queues_queueMessage:
  "queues (snd (queueMessage m q1 q2 (Window d cs))) =
     (queue d @ [\<lparr>msg = m, p1 = q1, p2 = q2\<rparr>]) # queuesList cs"
  by (simp add: queueMessage_def Let_def)

text \<open>A tap is either refused, and then nothing changes, or claimed, and then exactly one
  queue of the subtree has received the tap message.\<close>

lemma processInput_one:
  assumes t: "type_i params = INPUT_TAP"
  shows "(\<not> fst (processInput disp pd params w) \<longrightarrow> snd (processInput disp pd params w) = w) \<and>
         (fst (processInput disp pd params w) \<longrightarrow>
            oneMore (tapMessage (x_i params) (y_i params)) (queues w)
              (queues (snd (processInput disp pd params w))))"
    and "(\<not> fst (processInputChildren disp pd params ws) \<longrightarrow>
            snd (processInputChildren disp pd params ws) = ws) \<and>
         (fst (processInputChildren disp pd params ws) \<longrightarrow>
            oneMore (tapMessage (x_i params) (y_i params)) (queuesList ws)
              (queuesList (snd (processInputChildren disp pd params ws))))"
  using t
proof (induction disp pd params w and disp pd params ws
       rule: processInput_processInputChildren.induct)
  case (1 disp pd params d cs)
  show ?case
  proof (cases "isDrawable disp pd (Window d cs) \<and> pointWithin (rect d) (x_i params) (y_i params)")
    case False
    then show ?thesis by auto
  next
    case True
    obtain h cs' where r: "processInputChildren disp (isDrawable disp pd (Window d cs)) params cs = (h, cs')"
      by (cases "processInputChildren disp (isDrawable disp pd (Window d cs)) params cs")
    have ih: "(\<not> h \<longrightarrow> cs' = cs) \<and>
              (h \<longrightarrow> oneMore (tapMessage (x_i params) (y_i params)) (queuesList cs) (queuesList cs'))"
      using "1.IH" "1.prems" True r by simp
    show ?thesis
    proof (cases h)
      case True
      then show ?thesis
        using \<open>isDrawable disp pd (Window d cs) \<and> pointWithin (rect d) (x_i params) (y_i params)\<close>
          r ih by (simp add: oneMore_Cons)
    next
      case False
      then have "cs' = cs" using ih by simp
      then show ?thesis
        using \<open>isDrawable disp pd (Window d cs) \<and> pointWithin (rect d) (x_i params) (y_i params)\<close>
          r False "1.prems"
        by (simp add: queueMessage_def Let_def tapMessage_def oneMore_hd tap_claimed)
    qed
  qed
next
  case (2 disp pd params)
  then show ?case by simp
next
  case (3 disp pd params c cs)
  obtain h cs' where r: "processInputChildren disp pd params cs = (h, cs')"
    by (cases "processInputChildren disp pd params cs")
  have ih1: "(\<not> h \<longrightarrow> cs' = cs) \<and>
             (h \<longrightarrow> oneMore (tapMessage (x_i params) (y_i params)) (queuesList cs) (queuesList cs'))"
    using "3.IH"(1) "3.prems" r by simp
  show ?case
  proof (cases h)
    case True
    then show ?thesis using r ih1 by (simp add: oneMore_append2)
  next
    case False
    obtain h2 c' where r2: "processInput disp pd params c = (h2, c')"
      by (cases "processInput disp pd params c")
    have ih2: "(\<not> h2 \<longrightarrow> c' = c) \<and>
               (h2 \<longrightarrow> oneMore (tapMessage (x_i params) (y_i params)) (queues c) (queues c'))"
      using "3.IH"(2)[OF r[symmetric]] "3.prems" False r2 by simp
    have "cs' = cs" using False ih1 by simp
    then show ?thesis
      using r r2 False ih2 by (auto simp: oneMore_append1)
  qed
qed

lemma hitTestChildren_one:
  assumes t: "type_i params = INPUT_TAP"
  shows "(\<not> fst (hitTestChildren disp params ws) \<longrightarrow> snd (hitTestChildren disp params ws) = ws) \<and>
         (fst (hitTestChildren disp params ws) \<longrightarrow>
            oneMore (tapMessage (x_i params) (y_i params)) (queuesList ws)
              (queuesList (snd (hitTestChildren disp params ws))))"
proof (induction ws)
  case Nil
  then show ?case by simp
next
  case (Cons c cs)
  obtain h cs' where r: "hitTestChildren disp params cs = (h, cs')"
    by (cases "hitTestChildren disp params cs")
  obtain h2 c' where r2: "processInput disp True params c = (h2, c')"
    by (cases "processInput disp True params c")
  have ih2: "(\<not> h2 \<longrightarrow> c' = c) \<and>
             (h2 \<longrightarrow> oneMore (tapMessage (x_i params) (y_i params)) (queues c) (queues c'))"
    using processInput_one(1)[OF t, of disp True c] r2 by simp
  have ih1: "(\<not> h \<longrightarrow> cs' = cs) \<and>
             (h \<longrightarrow> oneMore (tapMessage (x_i params) (y_i params)) (queuesList cs) (queuesList cs'))"
    using Cons r by simp
  show ?case
  proof (cases h)
    case True
    then show ?thesis using r ih1 by (simp add: oneMore_append2)
  next
    case False
    then have e: "cs' = cs" using ih1 by simp
    show ?thesis
    proof (cases "isDrawable disp True c")
      case d: False
      then show ?thesis using r False e by simp
    next
      case d: True
      show ?thesis
      proof (cases h2)
        case True
        then show ?thesis using r r2 False e d ih2 by (simp add: oneMore_append1)
      next
        case h2: False
        then show ?thesis using r r2 False e d ih2 by simp
      qed
    qed
  qed
qed

section \<open>Claims about hit testing\<close>

text \<open>
  Claim C4. In a tree whose windows have well-formed rectangles, a call of \<open>hitTest\<close>
  that returns leaves every message queue of the whole tree as it was, or appends the tap
  message (\<open>MSG_INPUT\<close> with \<open>INPUT_TAP\<close> and the coordinates) to exactly one queue and
  leaves all the others as they were; queueing that message returns true. The call
  returns unless one of its two assertions on the coordinates fails.
\<close>

theorem hitTest_at_most_one_claim:
  assumes "list_all (\<lambda>w. wellFormed (getRect w)) (windowsList (registry wm))"
  shows "(case hitTest now px py wm of
      None \<Rightarrow> \<not> (0 \<le> px \<and> 0 \<le> py \<and> px \<le> displayWidth wm \<and> py \<le> displayHeight wm)
    | Some wm' \<Rightarrow>
        queuesList (registry wm') = queuesList (registry wm) \<or>
        (\<exists>i < length (queuesList (registry wm)).
           queuesList (registry wm') =
             (queuesList (registry wm))[i := queuesList (registry wm) ! i @ [tapMessage px py]])) \<and>
   fst (queueMessage (msg (tapMessage px py)) (p1 (tapMessage px py)) (p2 (tapMessage px py)) w)"
proof -
  let ?params = "\<lparr>type_i = INPUT_TAP, x_i = px, y_i = py\<rparr>"
  obtain claimed reg' where
    r: "hitTestChildren (getDisplayRect wm) ?params (registry wm) = (claimed, reg')"
    by (cases "hitTestChildren (getDisplayRect wm) ?params (registry wm)")
  have one: "(\<not> claimed \<longrightarrow> reg' = registry wm) \<and>
             (claimed \<longrightarrow> oneMore (tapMessage px py) (queuesList (registry wm)) (queuesList reg'))"
    using hitTestChildren_one[of ?params "getDisplayRect wm" "registry wm"] r by simp
  then have q: "queuesList reg' = queuesList (registry wm) \<or>
        (\<exists>i < length (queuesList (registry wm)).
           queuesList reg' =
             (queuesList (registry wm))[i := queuesList (registry wm) ! i @ [tapMessage px py]])"
    unfolding oneMore_def by (cases claimed) simp_all
  have "case hitTest now px py wm of
      None \<Rightarrow> \<not> (0 \<le> px \<and> 0 \<le> py \<and> px \<le> displayWidth wm \<and> py \<le> displayHeight wm)
    | Some wm' \<Rightarrow>
        queuesList (registry wm') = queuesList (registry wm) \<or>
        (\<exists>i < length (queuesList (registry wm)).
           queuesList (registry wm') =
             (queuesList (registry wm))[i := queuesList (registry wm) ! i @ [tapMessage px py]])"
    using q r by (auto simp: hitTest_def Let_def)
  moreover have "fst (queueMessage (msg (tapMessage px py)) (p1 (tapMessage px py))
                        (p2 (tapMessage px py)) w)"
    by (simp add: queueMessage_def tapMessage_def tap_claimed)
  ultimately show ?thesis by simp
qed

text \<open>The scenario of section 8 of the specification: a tap at \<open>(10, 10)\<close> inside only the
  first of two windows that do not overlap; the first window receives the tap message
  and the queue of the second stays empty.\<close>

theorem hitTest_at_most_one_claim_witness:
  "list_all (\<lambda>w. wellFormed (getRect w))
     (windowsList (registry (exampleWM
       [exampleWindow 1 (STY_TOPLEVEL OR STY_VISIBLE) STA_ALIVE
          \<lparr>left = 0, top_r = 0, right = 100, bottom = 100\<rparr> Rect0 False [] [],
        exampleWindow 2 (STY_TOPLEVEL OR STY_VISIBLE) STA_ALIVE
          \<lparr>left = 150, top_r = 150, right = 250, bottom = 250\<rparr> Rect0 False [] []]))) \<and>
   hitTest 1000 10 10
     (exampleWM
       [exampleWindow 1 (STY_TOPLEVEL OR STY_VISIBLE) STA_ALIVE
          \<lparr>left = 0, top_r = 0, right = 100, bottom = 100\<rparr> Rect0 False [] [],
        exampleWindow 2 (STY_TOPLEVEL OR STY_VISIBLE) STA_ALIVE
          \<lparr>left = 150, top_r = 150, right = 250, bottom = 250\<rparr> Rect0 False [] []]) =
   Some ((exampleWM
       [exampleWindow 1 (STY_TOPLEVEL OR STY_VISIBLE) STA_ALIVE
          \<lparr>left = 0, top_r = 0, right = 100, bottom = 100\<rparr> Rect0 False [tapMessage 10 10] [],
        exampleWindow 2 (STY_TOPLEVEL OR STY_VISIBLE) STA_ALIVE
          \<lparr>left = 150, top_r = 150, right = 250, bottom = 250\<rparr> Rect0 False [] []])
      \<lparr>lastHitTestTime := 1000\<rparr>) \<and>
   (\<exists>i < 2. [[tapMessage 10 10], []] = [[], []][i := [[], []] ! i @ [tapMessage 10 10]])"
proof -
  let ?wm = "exampleWM
       [exampleWindow 1 (STY_TOPLEVEL OR STY_VISIBLE) STA_ALIVE
          \<lparr>left = 0, top_r = 0, right = 100, bottom = 100\<rparr> Rect0 False [] [],
        exampleWindow 2 (STY_TOPLEVEL OR STY_VISIBLE) STA_ALIVE
          \<lparr>left = 150, top_r = 150, right = 250, bottom = 250\<rparr> Rect0 False [] []]"
  have h: "hitTest 1000 10 10 ?wm =
   Some ((exampleWM
       [exampleWindow 1 (STY_TOPLEVEL OR STY_VISIBLE) STA_ALIVE
          \<lparr>left = 0, top_r = 0, right = 100, bottom = 100\<rparr> Rect0 False [tapMessage 10 10] [],
        exampleWindow 2 (STY_TOPLEVEL OR STY_VISIBLE) STA_ALIVE
          \<lparr>left = 150, top_r = 150, right = 250, bottom = 250\<rparr> Rect0 False [] []])
      \<lparr>lastHitTestTime := 1000\<rparr>)"
    by (simp add: hitTest_def exampleWM_def exampleWindow_def getDisplayRect_def mkRect_def
        toCoord_def toExtent_def isDrawable_def isVisible_def isAlive_def bitsHigh_def
        STY_TOPLEVEL_def STY_VISIBLE_def STY_FRAME_def STY_SHADOW_def STA_ALIVE_def
        WMS_SSAVER_ENABLED_def WMS_SSAVER_ACTIVE_def empty_r_def width_def height_def
        outsideRect_def pointWithin_def queueMessage_def tapMessage_def INPUT_TAP_def Let_def)
  have f: "list_all (\<lambda>w. wellFormed (getRect w)) (windowsList (registry ?wm))"
    by (simp add: exampleWM_def exampleWindow_def wellFormed_def isCoord_def)
  show ?thesis
    using hitTest_at_most_one_claim[OF f, where now = 1000 and px = 10 and py = 10] h f
    by (simp add: exampleWM_def exampleWindow_def numeral_2_eq_2)
qed

section \<open>Draining the message queues\<close>

lemma msg_tapMessage [simp]: "msg (tapMessage a b) = MSG_INPUT"
  by (simp add: tapMessage_def)

lemma tap_loword [simp]: "getMsgParamLoWord (p1 (tapMessage a b)) = INPUT_TAP"
  by (simp add: tapMessage_def tap_claimed)

text \<open>The operations that a message can reach leave every queue of the subtree as it
  is.\<close>

lemma queuesList_append [simp]: "queuesList (xs @ ys) = queuesList xs @ queuesList ys"
  by (induction xs) simp_all

lemma queues_unfold: "queues w = getQueue w # queuesList (children w)"
  by (cases w) simp

lemma queuesList_map_same:
  "(\<And>c. c \<in> set cs \<Longrightarrow> queues (f c) = queues c) \<Longrightarrow> queuesList (map f cs) = queuesList cs"
  by (induction cs) auto

lemma queues_markRectDirty [simp]: "queues (markRectDirty r w) = queues w"
proof (induction r w rule: markRectDirty.induct)
  case (1 r d cs)
  show ?case
  proof (cases "empty_r r")
    case True
    then have "queuesList (map (markRectDirty Rect0) cs) = queuesList cs"
      using 1 by (intro queuesList_map_same) simp
    then show ?thesis using True by simp
  next
    case False
    then show ?thesis by (simp add: Let_def)
  qed
qed

lemma queuesList_markRectDirty [simp]: "queuesList (map (markRectDirty r) cs) = queuesList cs"
  by (rule queuesList_map_same) simp

lemma queues_setState [simp]: "queues (setState s w) = queues w"
  by (cases w) (simp add: setState_def)

lemma queues_setDirtyFlag [simp]: "queues (setDirtyFlag b w) = queues w"
  by (simp add: setDirtyFlag_def)

lemma queuesList_setDirtyFlag [simp]: "queuesList (map (setDirtyFlag b) cs) = queuesList cs"
  by (rule queuesList_map_same) simp

lemma queues_routeDraw: "routeDraw disp pd q1 w = (h, w1, marks) \<Longrightarrow> queues w1 = queues w"
  by (auto simp: routeDraw_def onPostDraw_def split: if_splits)

lemma queues_applyParentMark:
  "applyParentMark r (d, before, after) = (d', before', after') \<Longrightarrow>
   queue d' = queue d \<and> queuesList before' = queuesList before \<and>
   queuesList after' = queuesList after"
  by (cases "markRectDirty r (Window d [])")
     (auto simp: applyParentMark_def Let_def split: if_splits)

lemma queues_applyParentMarks:
  "applyParentMarks rs (d, before, after) = (d', before', after') \<Longrightarrow>
   queue d' = queue d \<and> queuesList before' = queuesList before \<and>
   queuesList after' = queuesList after"
proof (induction rs arbitrary: d before after)
  case Nil
  then show ?case by simp
next
  case (Cons r rs)
  obtain d1 b1 a1 where s: "applyParentMark r (d, before, after) = (d1, b1, a1)"
    by (cases "applyParentMark r (d, before, after)")
  show ?case
    using Cons.IH[of d1 b1 a1] Cons.prems s queues_applyParentMark[OF s] by simp
qed

lemma queues_redraw:
  "redraw disp pd force w = (r, w', marks) \<Longrightarrow> queues w' = queues w"
  "redrawChildren disp pdp force d before after = (r', d', cs') \<Longrightarrow>
     queue d' = queue d \<and> queuesList cs' = queuesList before @ queuesList after"
proof (induction disp pd force w and disp pdp force d before after
       arbitrary: r w' marks and r' d' cs' rule: redraw_redrawChildren.induct)
  case (1 disp pd force w)
  show ?case
  proof (cases "isDrawable disp pd w")
    case False
    then show ?thesis using "1.prems" by simp
  next
    case True
    obtain redrawn w1 marks1 where
      a: "(if isDirty w \<or> force then routeDraw disp pd (if force then 1 else 0) w
           else (False, w, [])) = (redrawn, w1, marks1)"
      by (cases "if isDirty w \<or> force then routeDraw disp pd (if force then 1 else 0) w
           else (False, w, [])")
    have s1: "queues w1 = queues w"
      using a queues_routeDraw[of disp pd "if force then 1 else 0" w redrawn w1 marks1]
      by (auto split: if_splits)
    obtain cr d3 cs3 where
      b: "redrawChildren disp pd force (dat w1) []
            (if redrawn then map (setDirtyFlag True) (children w1) else children w1) = (cr, d3, cs3)"
      by (cases "redrawChildren disp pd force (dat w1) []
            (if redrawn then map (setDirtyFlag True) (children w1) else children w1)")
    have "queue d3 = getQueue w1 \<and> queuesList cs3 = queuesList (children w1)"
      using "1.IH"[of redrawn "(w1, marks1)" w1 marks1 cr d3 cs3] True a b
      by (simp split: if_splits)
    moreover have "w' = Window d3 cs3"
      using "1.prems" True a b by simp
    ultimately show ?thesis
      using s1 queues_unfold[of w1] by simp
  qed
next
  case (2 disp pdp force d before)
  then show ?case by simp
next
  case (3 disp pdp force d before child after)
  show ?case
  proof (cases "isDirty child \<or> force")
    case False
    then show ?thesis
      using "3.IH"(3)[OF False, of r' d' cs'] "3.prems" by simp
  next
    case True
    obtain r1 child' marks1 where
      a: "redraw disp (isDrawable disp pdp (Window d [])) force child = (r1, child', marks1)"
      by (cases "redraw disp (isDrawable disp pdp (Window d [])) force child")
    obtain d1 before1 after1 where
      b: "applyParentMarks marks1 (d, before, after) = (d1, before1, after1)"
      by (cases "applyParentMarks marks1 (d, before, after)")
    obtain cr d2 cs2 where
      c: "redrawChildren disp pdp force d1 (before1 @ [child']) after1 = (cr, d2, cs2)"
      by (cases "redrawChildren disp pdp force d1 (before1 @ [child']) after1")
    have s1: "queues child' = queues child"
      using "3.IH"(1)[OF True a] .
    have s2: "queue d2 = queue d1 \<and>
              queuesList cs2 = queuesList (before1 @ [child']) @ queuesList after1"
      using "3.IH"(2)[of r1 "(child', marks1)" child' marks1 d1 "(before1, after1)"
          before1 after1 cr d2 cs2] True a b c by simp
    have s3: "queue d1 = queue d" "queuesList before1 = queuesList before"
      "queuesList after1 = queuesList after"
      using queues_applyParentMarks[OF b] by simp_all
    have "d' = d2" "cs' = cs2"
      using "3.prems" True a b c by simp_all
    then show ?thesis
      using s1 s2 s3 by simp
  qed
qed

lemma queues_setDirty:
  "setDirty disp pd dirty rw w = (r, w', marks) \<Longrightarrow> queues w' = queues w"
  using queues_redraw(1)[of disp pd False "setDirtyFlag True w" r w' marks]
  by (auto simp: setDirty_def split: if_splits)

lemma queues_finishRoute:
  assumes "finishRoute disp pd dirty handled w marks = (h, w', marks')"
  shows "queues w' = queues w"
proof (cases dirty)
  case False
  then show ?thesis using assms by (simp add: finishRoute_def)
next
  case True
  obtain r w2 m2 where s: "setDirty disp pd True True w = (r, w2, m2)"
    by (cases "setDirty disp pd True True w")
  have "w' = w2" using assms True s by (simp add: finishRoute_def)
  then show ?thesis using queues_setDirty[OF s] by simp
qed

lemma queues_setCornerRadius:
  assumes "setCornerRadius disp pd radius w = (w', marks)"
  shows "queues w' = queues w"
proof (cases "radius \<noteq> cornerRadius (dat w)")
  case False
  then show ?thesis using assms by (simp add: setCornerRadius_def)
next
  case True
  obtain r w2 m2 where
    s: "setDirty disp pd True True (Window ((dat w)\<lparr>cornerRadius := radius\<rparr>) (children w)) =
          (r, w2, m2)"
    by (cases "setDirty disp pd True True (Window ((dat w)\<lparr>cornerRadius := radius\<rparr>) (children w))")
  have "w' = w2" using assms True s by (simp add: setCornerRadius_def)
  then show ?thesis
    using queues_setDirty[OF s] queues_unfold[of w] by (simp add: queues_unfold)
qed

lemma queues_routeMessage:
  assumes "routeMessage disp rm pd m q1 q2 w = Some (h, w', marks)"
  shows "queues w' = queues w"
proof (cases m)
  case MSG_NONE
  then show ?thesis using assms by (simp add: routeMessage_def)
next
  case MSG_CREATE
  obtain w1 m1 where c: "setCornerRadius disp pd rm w = (w1, m1)"
    by (cases "setCornerRadius disp pd rm w")
  have "finishRoute disp pd True True (setState (getState w1 OR STA_ALIVE) w1) m1 = (h, w', marks)"
    using assms MSG_CREATE c by (simp add: routeMessage_def onCreate_def)
  then have "queues w' = queues (setState (getState w1 OR STA_ALIVE) w1)"
    by (rule queues_finishRoute)
  then show ?thesis
    using queues_setCornerRadius[OF c] by simp
next
  case MSG_DESTROY
  then show ?thesis
    using assms queues_finishRoute[of disp pd False True "setState (getState w AND NOT STA_ALIVE) w" "[]" h w' marks]
    by (simp add: routeMessage_def)
next
  case MSG_DRAW
  then show ?thesis
    using assms queues_routeDraw[of disp pd q1 w h w' marks] by (simp add: routeMessage_def)
next
  case MSG_POSTDRAW
  then show ?thesis
    using assms by (auto simp: routeMessage_def onPostDraw_def finishRoute_def)
next
  case MSG_INPUT
  then show ?thesis
    using assms queues_finishRoute[of disp pd _ _ w "[]" h w' marks]
    by (auto simp: routeMessage_def split: option.splits)
next
  case MSG_EVENT
  then show ?thesis using assms by (simp add: routeMessage_def)
next
  case MSG_RESIZE
  then show ?thesis
    using assms queues_finishRoute[of disp pd _ _ w "[]" h w' marks]
    by (auto simp: routeMessage_def split: option.splits)
qed

subsection \<open>One call of \<open>processQueue\<close>\<close>

lemma inputs_append [simp]: "inputs (a @ b) = inputs a + inputs b"
  by (simp add: inputs_def)





lemma queued_mem: "pm \<in> set (queued es) \<longleftrightarrow> QueueParent pm \<in> set es"
  by (induction es rule: queued.induct) auto

lemma queued_append [simp]: "queued (es @ fs) = queued es @ queued fs"
  by (induction es rule: queued.induct) simp_all

lemma queued_map_MarkParent [simp]: "queued (map MarkParent rs) = []"
  by (induction rs) simp_all




lemma length_queues_head: "length (queues c) \<le> length (queuesList (c # cs))"
  by simp





subsection \<open>The handlers of \<open>Window\<close> and of \<open>Button\<close>\<close>

lemma windowRoute_queues:
  "windowRoute disp rm pd m q1 q2 x = Some (h, x', effs) \<Longrightarrow> queues x' = queues x"
  using queues_routeMessage[of disp rm pd m q1 q2 x]
  by (auto simp: windowRoute_def split: option.splits)

lemma windowRoute_queued:
  "windowRoute disp rm pd m q1 q2 x = Some (h, x', effs) \<Longrightarrow> queued effs = []"
  by (auto simp: windowRoute_def split: option.splits)



lemma routeInput_queues:
  assumes "routeInput tapped disp pd q1 x = Some (h, x', effs)"
  shows "queues x' = queues x"
proof -
  obtain handled es where t: "tapped x = Some (handled, es)"
    using assms by (auto simp: routeInput_def split: if_splits option.splits)
  obtain h1 w1 marks where f: "finishRoute disp pd handled handled x [] = (h1, w1, marks)"
    by (cases "finishRoute disp pd handled handled x []")
  have "x' = w1"
    using assms t f by (simp add: routeInput_def split: if_splits)
  then show ?thesis
    using queues_finishRoute[OF f] by simp
qed

lemma routeInput_queued:
  assumes "routeInput tapped disp pd q1 x = Some (h, x', effs)"
    and "tapped x = Some (handled, es)"
  shows "queued effs = queued es"
proof -
  obtain h1 w1 marks where f: "finishRoute disp pd handled handled x [] = (h1, w1, marks)"
    by (cases "finishRoute disp pd handled handled x []")
  have "effs = es @ map MarkParent marks"
    using assms f by (simp add: routeInput_def split: if_splits)
  then show ?thesis
    by simp
qed

text \<open>A handler of a \<open>Button\<close> leaves the queues of its subtree as they are, and queues on
  the parent only the event of a tap.\<close>

lemma dialogRoute_queues:
  "dialogRoute disp rm pd m q1 q2 x = Some (h, x', effs) \<Longrightarrow> queues x' = queues x"
  using windowRoute_queues[of disp rm pd m q1 q2 x h x' effs]
    routeInput_queues[of Button_onTapped disp pd q1 x h x' effs]
  by (auto simp: dialogRoute_def buttonRoute_def split: if_splits)

lemma dialogRoute_queued:
  assumes "dialogRoute disp rm pd m q1 q2 x = Some (h, x', effs)"
    and "QueueParent pm \<in> set effs"
  shows "m = MSG_INPUT \<and> msg pm = MSG_EVENT"
proof (cases "hasParent (dat x) \<and> m = MSG_INPUT")
  case False
  then have "windowRoute disp rm pd m q1 q2 x = Some (h, x', effs)"
    using assms(1) by (auto simp: dialogRoute_def buttonRoute_def split: if_splits)
  then have "queued effs = []"
    by (rule windowRoute_queued)
  then show ?thesis
    using assms(2) queued_mem[of pm effs] by simp
next
  case True
  then have r: "routeInput Button_onTapped disp pd q1 x = Some (h, x', effs)"
    using assms(1) by (simp add: dialogRoute_def buttonRoute_def)
  have t: "Button_onTapped x =
             Some (True, [QueueParent \<lparr>msg = MSG_EVENT, p1 = EVT_CHILD_TAPPED, p2 = ucast (getID x)\<rparr>])"
    using True by (simp add: Button_onTapped_def)
  have "queued effs = [\<lparr>msg = MSG_EVENT, p1 = EVT_CHILD_TAPPED, p2 = ucast (getID x)\<rparr>]"
    using routeInput_queued[OF r t] by simp
  then show ?thesis
    using True assms(2) queued_mem[of pm effs] by auto
qed

text \<open>A window of the class \<open>Window\<close> with an empty queue and a child of the class \<open>Button\<close>
  that was hidden after it was tapped: the first call of \<open>processQueue\<close> on the window
  routes the tap of the button, which queues the event on the window, and returns true;
  the second call routes the event, and the loop ends with both queues empty. The button
  is not drawable, so \<open>setDirty(true)\<close> sets its dirty flag and draws nothing.\<close>

lemma processQueue_button_child:
  "processQueue (dialogRoute \<lparr>left = 0, top_r = 0, right = 320, bottom = 240\<rparr> 0)
     \<lparr>left = 0, top_r = 0, right = 320, bottom = 240\<rparr> True
     (exampleWindow 1 (STY_TOPLEVEL OR STY_VISIBLE) STA_ALIVE
        \<lparr>left = 0, top_r = 0, right = 100, bottom = 100\<rparr> Rect0 False []
        [exampleWindow 2 STY_CHILD STA_ALIVE
           \<lparr>left = 10, top_r = 10, right = 50, bottom = 30\<rparr> Rect0 True
           [tapMessage 20 20] []]) =
   Some (True,
     exampleWindow 1 (STY_TOPLEVEL OR STY_VISIBLE) STA_ALIVE
        \<lparr>left = 0, top_r = 0, right = 100, bottom = 100\<rparr> Rect0 False
        [\<lparr>msg = MSG_EVENT, p1 = EVT_CHILD_TAPPED, p2 = 2\<rparr>]
        [exampleWindow 2 STY_CHILD (STA_ALIVE OR STA_DIRTY)
           \<lparr>left = 10, top_r = 10, right = 50, bottom = 30\<rparr> Rect0 True [] []], []) \<and>
   drain (dialogRoute \<lparr>left = 0, top_r = 0, right = 320, bottom = 240\<rparr> 0)
     \<lparr>left = 0, top_r = 0, right = 320, bottom = 240\<rparr> True
     (exampleWindow 1 (STY_TOPLEVEL OR STY_VISIBLE) STA_ALIVE
        \<lparr>left = 0, top_r = 0, right = 100, bottom = 100\<rparr> Rect0 False []
        [exampleWindow 2 STY_CHILD STA_ALIVE
           \<lparr>left = 10, top_r = 10, right = 50, bottom = 30\<rparr> Rect0 True
           [tapMessage 20 20] []]) =
   Some (exampleWindow 1 (STY_TOPLEVEL OR STY_VISIBLE) STA_ALIVE
        \<lparr>left = 0, top_r = 0, right = 100, bottom = 100\<rparr> Rect0 False []
        [exampleWindow 2 STY_CHILD (STA_ALIVE OR STA_DIRTY)
           \<lparr>left = 10, top_r = 10, right = 50, bottom = 30\<rparr> Rect0 True [] []])"
  by (simp add: exampleWindow_def dialogRoute_def buttonRoute_def windowRoute_def
      routeMessage_def routeInput_def Button_onTapped_def finishRoute_def setDirty_def
      setDirtyFlag_def setState_def applyEffect_def isDrawable_def isVisible_def
      bitsHigh_def STY_CHILD_def STY_VISIBLE_def STY_TOPLEVEL_def
      processQueue.simps[of _ _ _ "Window d cs" for d cs]
      drain.simps[of _ _ _ "Window d cs" for d cs])

subsection \<open>The claim\<close>




section \<open>Drawable windows\<close>

text \<open>A window whose parent is not drawable is not drawable.\<close>

lemma isDrawable_parent: "\<not> isDrawable disp False w"
  by (simp add: isDrawable_def)

lemma displayRect_example [simp]:
  "getDisplayRect (exampleWM reg) = \<lparr>left = 0, top_r = 0, right = 320, bottom = 240\<rparr>"
  by (simp add: getDisplayRect_def exampleWM_def mkRect_def toCoord_def toExtent_def)

text \<open>
  Claim C5, drawable invariant. A top-level window of 340 x 260 pixels placed at
  \<open>(-10, -10)\<close> on the display of 320 x 240 pixels is visible and alive and covers every
  pixel of the display, so its rectangle is not wholly outside the display bounds; yet
  \<open>isDrawable\<close> is false for it, none of its four corners being a point of the display.
\<close>

theorem isDrawable_misses_window_around_display:
  "isVisible (exampleWindow 1 (STY_TOPLEVEL OR STY_VISIBLE) STA_ALIVE
                \<lparr>left = - 10, top_r = - 10, right = 330, bottom = 250\<rparr> Rect0 False [] []) \<and>
   isAlive (exampleWindow 1 (STY_TOPLEVEL OR STY_VISIBLE) STA_ALIVE
                \<lparr>left = - 10, top_r = - 10, right = 330, bottom = 250\<rparr> Rect0 False [] []) \<and>
   wellFormed \<lparr>left = - 10, top_r = - 10, right = 330, bottom = 250\<rparr> \<and>
   getDisplayRect (exampleWM []) = \<lparr>left = 0, top_r = 0, right = 320, bottom = 240\<rparr> \<and>
   pixels (getDisplayRect (exampleWM [])) \<subseteq>
     pixels \<lparr>left = - 10, top_r = - 10, right = 330, bottom = 250\<rparr> \<and>
   (5, 5) \<in> pixels (getDisplayRect (exampleWM [])) \<and>
   \<not> isDrawable (getDisplayRect (exampleWM [])) True
       (exampleWindow 1 (STY_TOPLEVEL OR STY_VISIBLE) STA_ALIVE
          \<lparr>left = - 10, top_r = - 10, right = 330, bottom = 250\<rparr> Rect0 False [] [])"
  by (auto simp: isDrawable_def isVisible_def isAlive_def exampleWindow_def bitsHigh_def
      STY_TOPLEVEL_def STY_VISIBLE_def STY_FRAME_def STY_SHADOW_def STA_ALIVE_def
      empty_r_def width_def height_def toExtent_def wellFormed_def isCoord_def
      outsideRect_def pointWithin_def pixels_def)

section \<open>Destroying windows\<close>

lemma bitsHigh_cleared: "bitsHigh (s AND NOT m) m \<longleftrightarrow> m = 0"
proof -
  have "(s AND NOT m) AND m = 0"
    by (simp add: and.assoc)
  then show ?thesis
    by (auto simp: bitsHigh_def)
qed

lemma not_visible_cleared:
  "\<not> isVisible (Window (d\<lparr>style := style d AND NOT STY_VISIBLE\<rparr>) cs)"
proof -
  have "\<not> bitsHigh (style d AND NOT STY_VISIBLE) STY_VISIBLE"
    unfolding bitsHigh_cleared by (simp add: STY_VISIBLE_def)
  then show ?thesis
    by (simp add: isVisible_def)
qed

lemma isVisible_setDirtyFlag [simp]: "isVisible (setDirtyFlag b w) = isVisible w"
  by (simp add: isVisible_def setDirtyFlag_def setState_def)

lemma redraw_not_drawable: "\<not> isDrawable disp pd w \<Longrightarrow> redraw disp pd force w = (False, w, [])"
  by simp

text \<open>\<open>hide\<close> leaves a window that is not visible, with the same id, rectangle and
  children, and reaches no \<open>onPostDraw\<close>.\<close>

lemma hide_setStyle_marks:
  assumes "isVisible w"
  shows "setStyle disp pd (getStyle w AND NOT STY_VISIBLE) w =
           (setDirtyFlag True (Window ((dat w)\<lparr>style := getStyle w AND NOT STY_VISIBLE\<rparr>)
              (children w)), [])"
proof -
  let ?w0 = "Window ((dat w)\<lparr>style := getStyle w AND NOT STY_VISIBLE\<rparr>) (children w)"
  have "bitsHigh (getStyle w) STY_VISIBLE"
    using assms by (simp add: isVisible_def)
  then have ne: "getStyle w AND NOT STY_VISIBLE \<noteq> getStyle w"
    using bitsHigh_cleared[of "getStyle w" STY_VISIBLE] by (auto simp: STY_VISIBLE_def)
  have "\<not> isVisible (setDirtyFlag True ?w0)"
    using not_visible_cleared[of "dat w" "children w"] by simp
  then have "\<not> isDrawable disp pd (setDirtyFlag True ?w0)"
    by (simp add: isDrawable_def)
  then have "redraw disp pd False (setDirtyFlag True ?w0) = (False, setDirtyFlag True ?w0, [])"
    by (rule redraw_not_drawable)
  then show ?thesis
    using ne by (simp add: setStyle_def setDirty_def)
qed

lemma hide_result:
  assumes "hide disp pd w = (hidden, w1, calls)"
  shows "\<not> isVisible w1 \<and> getID w1 = getID w \<and> children w1 = children w \<and>
         getRect w1 = getRect w \<and> getStyle w1 = getStyle w AND NOT STY_VISIBLE \<or>
         \<not> isVisible w \<and> w1 = w"
proof (cases "isVisible w")
  case False
  then show ?thesis using assms by (simp add: hide_def)
next
  case True
  have "w1 = setDirtyFlag True (Window ((dat w)\<lparr>style := getStyle w AND NOT STY_VISIBLE\<rparr>)
              (children w))"
    using assms True hide_setStyle_marks[OF True, of disp pd] by (simp add: hide_def)
  moreover have "\<not> isVisible (setDirtyFlag True
       (Window ((dat w)\<lparr>style := getStyle w AND NOT STY_VISIBLE\<rparr>) (children w)))"
    using not_visible_cleared[of "dat w" "children w"] by simp
  moreover have "getID (setDirtyFlag True
       (Window ((dat w)\<lparr>style := getStyle w AND NOT STY_VISIBLE\<rparr>) (children w))) = getID w"
    "children (setDirtyFlag True
       (Window ((dat w)\<lparr>style := getStyle w AND NOT STY_VISIBLE\<rparr>) (children w))) = children w"
    "getRect (setDirtyFlag True
       (Window ((dat w)\<lparr>style := getStyle w AND NOT STY_VISIBLE\<rparr>) (children w))) = getRect w"
    "getStyle (setDirtyFlag True
       (Window ((dat w)\<lparr>style := getStyle w AND NOT STY_VISIBLE\<rparr>) (children w))) =
       getStyle w AND NOT STY_VISIBLE"
    by (simp_all add: setDirtyFlag_def setState_def)
  ultimately show ?thesis
    by simp
qed

lemma routeMessage_destroy:
  "routeMessage disp rm pd MSG_DESTROY q1 q2 w =
     Some (True, setState (getState w AND NOT STA_ALIVE) w, [])"
  by (simp add: routeMessage_def finishRoute_def)

lemma not_alive_cleared: "\<not> isAlive (setState (getState w AND NOT STA_ALIVE) w)"
proof -
  have "\<not> bitsHigh (getState w AND NOT STA_ALIVE) STA_ALIVE"
    unfolding bitsHigh_cleared by (simp add: STA_ALIVE_def)
  then show ?thesis
    by (simp add: isAlive_def setState_def)
qed

lemma isVisible_setState [simp]: "isVisible (setState s w) = isVisible w"
  by (simp add: isVisible_def setState_def)

text \<open>What \<open>destroy\<close> leaves of the window itself.\<close>

lemma destroy_self:
  assumes "destroy disp rm pd w = Some (destroyed, w', calls, gone)"
  shows "\<not> isVisible w' \<and> \<not> isAlive w' \<and> children w' = [] \<and> getID w' = getID w \<and>
         (\<exists>gone'. gone = w' # gone')"
proof -
  obtain hidden w1 calls1 where h: "hide disp pd w = (hidden, w1, calls1)"
    by (cases "hide disp pd w")
  let ?w2 = "setState (getState w1 AND NOT STA_ALIVE) w1"
  have w': "w' = Window (dat ?w2) []" and g: "\<exists>gone'. gone = w' # gone'"
    using assms h by (auto simp: routeMessage_destroy removeAllChildren_def split: option.splits)
  have v: "\<not> isVisible w1" and i: "getID w1 = getID w"
    using hide_result[OF h] by auto
  have "\<not> isVisible w'"
    using v unfolding w' by (simp add: isVisible_def setState_def)
  moreover have "\<not> isAlive w'"
    using not_alive_cleared[of w1] unfolding w' by (simp add: isAlive_def)
  moreover have "getID w' = getID w"
    using i unfolding w' by (simp add: setState_def)
  ultimately show ?thesis
    using g w' by simp
qed

lemma destroy_children_kept:
  assumes "hide disp pd w = (hidden, w1, calls1)"
  shows "children (setState (getState w1 AND NOT STA_ALIVE) w1) = children w"
  using hide_result[OF assms] by (auto simp: setState_def)

text \<open>\<open>destroy\<close> returns, and it has called \<open>destroy\<close> on every window of the subtree, in
  pre-order, leaving each of them hidden, not alive and without children.\<close>

lemma destroy_all:
  "\<exists>destroyed w' calls gone.
      destroy disp rm pd w = Some (destroyed, w', calls, gone) \<and>
      map getID gone = map getID (windows w) \<and>
      (\<forall>g \<in> set gone. \<not> isVisible g \<and> \<not> isAlive g \<and> children g = [])"
  "\<exists>destroyed calls gone.
      destroyChildren disp rm pdc cs = Some (destroyed, calls, gone) \<and>
      map getID gone = map getID (windowsList cs) \<and>
      (\<forall>g \<in> set gone. \<not> isVisible g \<and> \<not> isAlive g \<and> children g = [])"
proof (induction disp rm pd w and disp rm pdc cs rule: destroy_destroyChildren.induct)
  case (1 disp rm pd w)
  obtain hidden w1 calls1 where h: "hide disp pd w = (hidden, w1, calls1)"
    by (cases "hide disp pd w")
  let ?w2 = "setState (getState w1 AND NOT STA_ALIVE) w1"
  have r: "routeMessage disp rm pd MSG_DESTROY 0 0 w1 = Some (True, ?w2, [])"
    by (rule routeMessage_destroy)
  have ck: "children ?w2 = children w"
    by (rule destroy_children_kept[OF h])
  obtain d2 calls2 gone2 where
    c: "destroyChildren disp rm (isDrawable disp pd ?w2) (children ?w2) = Some (d2, calls2, gone2)"
    and cg: "map getID gone2 = map getID (windowsList (children ?w2))"
    and ca: "\<forall>g \<in> set gone2. \<not> isVisible g \<and> \<not> isAlive g \<and> children g = []"
    using "1.IH"[OF h[symmetric] refl r refl refl] by auto
  let ?w' = "Window (dat ?w2) (removeAllChildren (children ?w2))"
  have d: "destroy disp rm pd w = Some (True \<and> d2, ?w', calls1 @ calls2, ?w' # gone2)"
    using h r c by (simp del: destroyChildren.simps)
  have s: "\<not> isVisible ?w' \<and> \<not> isAlive ?w' \<and> children ?w' = [] \<and> getID ?w' = getID w"
    using destroy_self[OF d] by (simp add: removeAllChildren_def)
  have "map getID (windows w) = getID w # map getID (windowsList (children w))"
    by (cases w) simp
  then have "map getID (?w' # gone2) = map getID (windows w)"
    using s cg ck by simp
  then show ?case
    using d s ca by (intro exI[of _ "True \<and> d2"] exI[of _ ?w'] exI[of _ "calls1 @ calls2"]
        exI[of _ "?w' # gone2"]) auto
next
  case (2 disp rm pdc)
  then show ?case by auto
next
  case (3 disp rm pdc child cs)
  obtain d1 c' calls1 gone1 where
    a: "destroy disp rm pdc child = Some (d1, c', calls1, gone1)"
    and ag: "map getID gone1 = map getID (windows child)"
    and aa: "\<forall>g \<in> set gone1. \<not> isVisible g \<and> \<not> isAlive g \<and> children g = []"
    using "3.IH"(1) by blast
  obtain d2 calls2 gone2 where
    b: "destroyChildren disp rm pdc cs = Some (d2, calls2, gone2)"
    and bg: "map getID gone2 = map getID (windowsList cs)"
    and ba: "\<forall>g \<in> set gone2. \<not> isVisible g \<and> \<not> isAlive g \<and> children g = []"
    using "3.IH"(2)[OF a refl refl refl] by blast
  have "destroyChildren disp rm pdc (child # cs) = Some (d1 \<and> d2, calls1 @ calls2, gone1 @ gone2)"
    using a b by simp
  then show ?case
    using ag aa bg ba by auto
qed

subsection \<open>The registry after \<open>destroy\<close>\<close>

text \<open>\<open>markRectDirty\<close> writes dirty rectangles only.\<close>

lemma markRectDirty_keeps:
  "getID (markRectDirty r w) = getID w"
  "isVisible (markRectDirty r w) = isVisible w"
  "isAlive (markRectDirty r w) = isAlive w"
  "length (children (markRectDirty r w)) = length (children w)"
  by (cases w; simp add: isVisible_def isAlive_def Let_def)+

lemma marks_keep:
  "getID (foldr markRectDirty rs w) = getID w \<and>
   isVisible (foldr markRectDirty rs w) = isVisible w \<and>
   isAlive (foldr markRectDirty rs w) = isAlive w \<and>
   length (children (foldr markRectDirty rs w)) = length (children w)"
  by (induction rs) (simp_all add: markRectDirty_keeps)

lemma children_markRectDirty:
  "children (markRectDirty r w) = children w \<or>
   children (markRectDirty r w) = map (markRectDirty Rect0) (children w)"
  by (cases w) (simp add: Let_def)

lemma children_marks:
  "length (children (foldr markRectDirty rs w)) = length (children w) \<and>
   (\<forall>i < length (children w).
      \<exists>rs'. children (foldr markRectDirty rs w) ! i = foldr markRectDirty rs' (children w ! i))"
proof (induction rs)
  case Nil
  have "\<forall>i < length (children w). children w ! i = foldr markRectDirty [] (children w ! i)"
    by simp
  then show ?case
    by (metis foldr.simps(1) id_apply)
next
  case (Cons r rs)
  let ?v = "foldr markRectDirty rs w"
  have l: "length (children ?v) = length (children w)"
    using Cons by simp
  have "\<exists>rs'. children (markRectDirty r ?v) ! i = foldr markRectDirty rs' (children w ! i)"
    if i: "i < length (children w)" for i
  proof -
    obtain rs' where rs': "children ?v ! i = foldr markRectDirty rs' (children w ! i)"
      using Cons i by blast
    from children_markRectDirty[of r ?v] show ?thesis
    proof
      assume "children (markRectDirty r ?v) = children ?v"
      then show ?thesis using rs' by auto
    next
      assume "children (markRectDirty r ?v) = map (markRectDirty Rect0) (children ?v)"
      then have "children (markRectDirty r ?v) ! i = foldr markRectDirty (Rect0 # rs') (children w ! i)"
        using rs' i l by simp
      then show ?thesis by blast
    qed
  qed
  then show ?case
    using l by (simp add: markRectDirty_keeps)
qed

lemma getAt_marks:
  assumes "getAt ws p = Some w"
    and "length ws' = length ws"
    and "\<forall>i < length ws. \<exists>rs. ws' ! i = foldr markRectDirty rs (ws ! i)"
  shows "\<exists>rs. getAt ws' p = Some (foldr markRectDirty rs w)"
  using assms
proof (induction ws p arbitrary: ws' rule: getAt.induct)
  case (1 ws)
  then show ?case by simp
next
  case (2 ws i)
  then show ?case by (auto split: if_splits)
next
  case (3 ws i j p)
  have i: "i < length ws" and g: "getAt (children (ws ! i)) (j # p) = Some w"
    using "3.prems"(1) by (auto split: if_splits)
  obtain rs where rs: "ws' ! i = foldr markRectDirty rs (ws ! i)"
    using "3.prems"(3) i by blast
  have "\<exists>rs'. getAt (children (ws' ! i)) (j # p) = Some (foldr markRectDirty rs' w)"
    using "3.IH"[OF i g, of "children (ws' ! i)"] children_marks[of rs "ws ! i"] rs by simp
  then show ?case
    using i "3.prems"(2) by simp
qed

lemma setDirtyRect_marks:
  assumes "length ws' = length ws"
    and "\<forall>i < length ws. \<exists>rs. ws' ! i = foldr markRectDirty rs (ws ! i)"
  shows "length (setDirtyRect disp r ws') = length ws \<and>
         (\<forall>i < length ws. \<exists>rs. setDirtyRect disp r ws' ! i = foldr markRectDirty rs (ws ! i))"
proof -
  have "\<exists>rs. setDirtyRect disp r ws' ! i = foldr markRectDirty rs (ws ! i)"
    if i: "i < length ws" for i
  proof -
    obtain rs where rs: "ws' ! i = foldr markRectDirty rs (ws ! i)"
      using assms(2) i by blast
    have "setDirtyRect disp r ws' ! i = ws' ! i \<or>
          setDirtyRect disp r ws' ! i = markRectDirty (getIntersection (getRect (ws' ! i)) r) (ws' ! i)"
      using i assms(1) by (simp add: setDirtyRect_def)
    then show ?thesis
    proof
      assume "setDirtyRect disp r ws' ! i = ws' ! i"
      then show ?thesis using rs by auto
    next
      assume "setDirtyRect disp r ws' ! i =
              markRectDirty (getIntersection (getRect (ws' ! i)) r) (ws' ! i)"
      then have "setDirtyRect disp r ws' ! i =
                 foldr markRectDirty (getIntersection (getRect (ws' ! i)) r # rs) (ws ! i)"
        using rs by simp
      then show ?thesis by blast
    qed
  qed
  then show ?thesis
    using assms(1) by (simp add: setDirtyRect_def)
qed

lemma setDirtyRects_marks:
  assumes "length ws' = length ws"
    and "\<forall>i < length ws. \<exists>rs. ws' ! i = foldr markRectDirty rs (ws ! i)"
  shows "length (foldl (\<lambda>reg r. setDirtyRect disp r reg) ws' calls) = length ws \<and>
         (\<forall>i < length ws. \<exists>rs. foldl (\<lambda>reg r. setDirtyRect disp r reg) ws' calls ! i =
                                  foldr markRectDirty rs (ws ! i))"
  using assms
proof (induction calls arbitrary: ws')
  case Nil
  then show ?case by simp
next
  case (Cons r calls)
  show ?case
    using Cons.IH[of "setDirtyRect disp r ws'"] setDirtyRect_marks[OF Cons.prems, of disp r]
    by simp
qed

lemma getAt_replaceAt:
  "getAt ws p = Some w \<Longrightarrow>
   getAt (replaceAt ws p w') p = Some w' \<and> length (replaceAt ws p w') = length ws"
proof (induction ws p arbitrary: w rule: getAt.induct)
  case (1 ws)
  then show ?case by simp
next
  case (2 ws i)
  then show ?case by (auto split: if_splits)
next
  case (3 ws i j p)
  then show ?case by (auto split: if_splits)
qed

lemma destroyAt_keeps_window:
  assumes g: "getAt (registry wm) p = Some w"
    and d: "destroy (getDisplayRect wm) (radiusMetric wm)
              (parentDrawableAt (getDisplayRect wm) True (registry wm) p) w =
            Some (destroyed, w', calls, gone)"
  shows "\<exists>wm' w''. destroyAt p wm = Some (destroyed, wm') \<and>
           length (registry wm') = length (registry wm) \<and>
           getAt (registry wm') p = Some w'' \<and> getID w'' = getID w \<and>
           \<not> isVisible w'' \<and> \<not> isAlive w'' \<and> children w'' = []"
proof -
  let ?reg1 = "replaceAt (registry wm) p w'"
  let ?reg2 = "foldl (\<lambda>reg r. setDirtyRect (getDisplayRect wm) r reg) ?reg1 calls"
  have a: "destroyAt p wm = Some (destroyed, wm\<lparr>registry := ?reg2\<rparr>)"
    using g d by (simp add: destroyAt_def)
  have r1: "getAt ?reg1 p = Some w'" and l1: "length ?reg1 = length (registry wm)"
    using getAt_replaceAt[OF g, of w'] by simp_all
  have "\<forall>i < length ?reg1. ?reg1 ! i = foldr markRectDirty [] (?reg1 ! i)"
    by simp
  then have "\<forall>i < length ?reg1. \<exists>rs. ?reg1 ! i = foldr markRectDirty rs (?reg1 ! i)"
    by blast
  then have m: "length ?reg2 = length ?reg1 \<and>
                (\<forall>i < length ?reg1. \<exists>rs. ?reg2 ! i = foldr markRectDirty rs (?reg1 ! i))"
    using setDirtyRects_marks[of ?reg1 ?reg1 "getDisplayRect wm" calls] by blast
  obtain rs where rs: "getAt ?reg2 p = Some (foldr markRectDirty rs w')"
    using getAt_marks[OF r1, of ?reg2] m by blast
  have s: "\<not> isVisible w' \<and> \<not> isAlive w' \<and> children w' = [] \<and> getID w' = getID w"
    using destroy_self[OF d] by simp
  have "\<not> isVisible (foldr markRectDirty rs w') \<and> \<not> isAlive (foldr markRectDirty rs w') \<and>
        children (foldr markRectDirty rs w') = [] \<and> getID (foldr markRectDirty rs w') = getID w"
    using s marks_keep[of rs w'] by simp
  then show ?thesis
    using a rs m l1 by simp
qed

lemma listAt_replaceAt:
  "getAt ws p = Some w \<Longrightarrow>
   \<exists>cs cs'. listAt ws p = Some cs \<and> listAt (replaceAt ws p w') p = Some cs' \<and>
            length cs' = length cs"
proof (induction ws p arbitrary: w rule: getAt.induct)
  case (1 ws)
  then show ?case by simp
next
  case (2 ws i)
  then show ?case by (auto split: if_splits)
next
  case (3 ws i j p)
  then show ?case by (auto split: if_splits)
qed

lemma listAt_marks:
  assumes "getAt ws p = Some w"
    and "length ws' = length ws"
    and "\<forall>i < length ws. \<exists>rs. ws' ! i = foldr markRectDirty rs (ws ! i)"
  shows "\<exists>cs cs'. listAt ws p = Some cs \<and> listAt ws' p = Some cs' \<and> length cs' = length cs"
  using assms
proof (induction ws p arbitrary: ws' rule: getAt.induct)
  case (1 ws)
  then show ?case by simp
next
  case (2 ws i)
  then show ?case by (auto split: if_splits)
next
  case (3 ws i j p)
  have i: "i < length ws" and g: "getAt (children (ws ! i)) (j # p) = Some w"
    using "3.prems"(1) by (auto split: if_splits)
  obtain rs where rs: "ws' ! i = foldr markRectDirty rs (ws ! i)"
    using "3.prems"(3) i by blast
  have "\<exists>cs cs'. listAt (children (ws ! i)) (j # p) = Some cs \<and>
                  listAt (children (ws' ! i)) (j # p) = Some cs' \<and> length cs' = length cs"
    using "3.IH"[OF i g, of "children (ws' ! i)"] children_marks[of rs "ws ! i"] rs by simp
  then show ?case
    using i "3.prems"(2) by simp
qed

lemma destroyAt_keeps_list:
  assumes g: "getAt (registry wm) p = Some w"
    and d: "destroy (getDisplayRect wm) (radiusMetric wm)
              (parentDrawableAt (getDisplayRect wm) True (registry wm) p) w =
            Some (destroyed, w', calls, gone)"
    and a: "destroyAt p wm = Some (destroyed', wm')"
  shows "\<exists>cs cs'. listAt (registry wm) p = Some cs \<and> listAt (registry wm') p = Some cs' \<and>
           length cs' = length cs"
proof -
  let ?reg1 = "replaceAt (registry wm) p w'"
  let ?reg2 = "foldl (\<lambda>reg r. setDirtyRect (getDisplayRect wm) r reg) ?reg1 calls"
  have r: "registry wm' = ?reg2"
    using g d a by (auto simp: destroyAt_def)
  have r1: "getAt ?reg1 p = Some w'" and l1: "length ?reg1 = length (registry wm)"
    using getAt_replaceAt[OF g, of w'] by simp_all
  obtain cs cs1 where c1: "listAt (registry wm) p = Some cs" "listAt ?reg1 p = Some cs1"
    "length cs1 = length cs"
    using listAt_replaceAt[OF g, of w'] by blast
  have "\<forall>i < length ?reg1. ?reg1 ! i = foldr markRectDirty [] (?reg1 ! i)"
    by simp
  then have "\<forall>i < length ?reg1. \<exists>rs. ?reg1 ! i = foldr markRectDirty rs (?reg1 ! i)"
    by blast
  then have m: "length ?reg2 = length ?reg1 \<and>
                (\<forall>i < length ?reg1. \<exists>rs. ?reg2 ! i = foldr markRectDirty rs (?reg1 ! i))"
    using setDirtyRects_marks[of ?reg1 ?reg1 "getDisplayRect wm" calls] by blast
  obtain cs1' cs2 where c2: "listAt ?reg1 p = Some cs1'" "listAt ?reg2 p = Some cs2"
    "length cs2 = length cs1'"
    using listAt_marks[OF r1, of ?reg2] m by blast
  show ?thesis
    using c1 c2 r by simp
qed

text \<open>
  Claim C9, destroy sequence, as amended. In a tree whose windows have well-formed
  rectangles, \<open>win->destroy()\<close> returns for every window \<open>w\<close> of the tree.
  It has then called \<open>destroy\<close> on \<open>w\<close> and on every descendant of \<open>w\<close>, parents before
  children, and each of these windows is left hidden, not alive (\<open>MSG_DESTROY\<close> was
  delivered) and with an empty child list. The window itself is not detached: the
  collection that held it has the same length as before and still holds, at the same
  position, a window with the id of \<open>w\<close>, hidden and not alive. This is so for the registry
  and, when \<open>w\<close> has a parent, for the child list of the parent (\<open>listAt\<close>).
\<close>

theorem destroy_sequence:
  assumes "getAt (registry wm) p = Some w"
    and "list_all (\<lambda>w. wellFormed (getRect w)) (windowsList (registry wm))"
  shows "\<exists>destroyed w' calls gone wm' w''.
           destroy (getDisplayRect wm) (radiusMetric wm)
             (parentDrawableAt (getDisplayRect wm) True (registry wm) p) w =
             Some (destroyed, w', calls, gone) \<and>
           map getID gone = map getID (windows w) \<and>
           list_all (\<lambda>g. \<not> isVisible g \<and> \<not> isAlive g \<and> children g = []) gone \<and>
           destroyAt p wm = Some (destroyed, wm') \<and>
           length (registry wm') = length (registry wm) \<and>
           getAt (registry wm') p = Some w'' \<and> getID w'' = getID w \<and>
           \<not> isVisible w'' \<and> \<not> isAlive w'' \<and> children w'' = [] \<and>
           (\<exists>cs cs'. listAt (registry wm) p = Some cs \<and> listAt (registry wm') p = Some cs' \<and>
                     length cs' = length cs)"
proof -
  obtain destroyed w' calls gone where
    d: "destroy (getDisplayRect wm) (radiusMetric wm)
          (parentDrawableAt (getDisplayRect wm) True (registry wm) p) w =
        Some (destroyed, w', calls, gone)"
    and g: "map getID gone = map getID (windows w)"
    and a: "\<forall>g \<in> set gone. \<not> isVisible g \<and> \<not> isAlive g \<and> children g = []"
    using destroy_all(1)[of "getDisplayRect wm" "radiusMetric wm"
        "parentDrawableAt (getDisplayRect wm) True (registry wm) p" w] by blast
  have l: "list_all (\<lambda>g. \<not> isVisible g \<and> \<not> isAlive g \<and> children g = []) gone"
    using a by (simp add: list_all_iff)
  obtain wm' w'' where
    k: "destroyAt p wm = Some (destroyed, wm')" "length (registry wm') = length (registry wm)"
    "getAt (registry wm') p = Some w''" "getID w'' = getID w"
    "\<not> isVisible w''" "\<not> isAlive w''" "children w'' = []"
    using destroyAt_keeps_window[OF assms(1) d] by blast
  have "\<exists>cs cs'. listAt (registry wm) p = Some cs \<and> listAt (registry wm') p = Some cs' \<and>
          length cs' = length cs"
    by (rule destroyAt_keeps_list[OF assms(1) d k(1)])
  then show ?thesis
    using d g l k by blast
qed

text \<open>A window with one child, destroyed through the registry.\<close>

theorem destroy_sequence_witness:
  "list_all (\<lambda>w. wellFormed (getRect w))
     (windowsList (registry (exampleWM
      [exampleWindow 1 (STY_TOPLEVEL OR STY_VISIBLE) STA_ALIVE
         \<lparr>left = 0, top_r = 0, right = 100, bottom = 100\<rparr> Rect0 False []
         [exampleWindow 2 (STY_CHILD OR STY_VISIBLE) STA_ALIVE
            \<lparr>left = 0, top_r = 0, right = 50, bottom = 50\<rparr> Rect0 True [] []]]))) \<and>
   getAt (registry (exampleWM
      [exampleWindow 1 (STY_TOPLEVEL OR STY_VISIBLE) STA_ALIVE
         \<lparr>left = 0, top_r = 0, right = 100, bottom = 100\<rparr> Rect0 False []
         [exampleWindow 2 (STY_CHILD OR STY_VISIBLE) STA_ALIVE
            \<lparr>left = 0, top_r = 0, right = 50, bottom = 50\<rparr> Rect0 True [] []]])) [0] =
   Some (exampleWindow 1 (STY_TOPLEVEL OR STY_VISIBLE) STA_ALIVE
         \<lparr>left = 0, top_r = 0, right = 100, bottom = 100\<rparr> Rect0 False []
         [exampleWindow 2 (STY_CHILD OR STY_VISIBLE) STA_ALIVE
            \<lparr>left = 0, top_r = 0, right = 50, bottom = 50\<rparr> Rect0 True [] []]) \<and>
   (\<exists>destroyed wm' w'' gone.
      destroyAt [0] (exampleWM
        [exampleWindow 1 (STY_TOPLEVEL OR STY_VISIBLE) STA_ALIVE
           \<lparr>left = 0, top_r = 0, right = 100, bottom = 100\<rparr> Rect0 False []
           [exampleWindow 2 (STY_CHILD OR STY_VISIBLE) STA_ALIVE
              \<lparr>left = 0, top_r = 0, right = 50, bottom = 50\<rparr> Rect0 True [] []]]) =
        Some (destroyed, wm') \<and>
      map getID gone = [1, 2] \<and>
      length (registry wm') = 1 \<and> getAt (registry wm') [0] = Some w'' \<and> getID w'' = 1 \<and>
      \<not> isVisible w'' \<and> \<not> isAlive w'' \<and> children w'' = [])"
proof -
  let ?w = "exampleWindow 1 (STY_TOPLEVEL OR STY_VISIBLE) STA_ALIVE
         \<lparr>left = 0, top_r = 0, right = 100, bottom = 100\<rparr> Rect0 False []
         [exampleWindow 2 (STY_CHILD OR STY_VISIBLE) STA_ALIVE
            \<lparr>left = 0, top_r = 0, right = 50, bottom = 50\<rparr> Rect0 True [] []]"
  have g: "getAt (registry (exampleWM [?w])) [0] = Some ?w"
    by (simp add: exampleWM_def)
  have i: "map getID (windows ?w) = [1, 2]" "getID ?w = 1"
    "length (registry (exampleWM [?w])) = 1"
    by (simp_all add: exampleWindow_def exampleWM_def)
  have f: "list_all (\<lambda>w. wellFormed (getRect w)) (windowsList (registry (exampleWM [?w])))"
    by (simp add: exampleWM_def exampleWindow_def wellFormed_def isCoord_def)
  show ?thesis
    using destroy_sequence[OF g f] g f unfolding i
    by (elim exE conjE) (intro conjI exI, assumption+)
qed

text \<open>Claim C9 as stated fails: after \<open>destroy\<close> has returned, the root collection
  still contains the window.\<close>

theorem destroy_stays_in_registry_counterexample:
  "destroyAt [0]
     (exampleWM [exampleWindow 1 (STY_TOPLEVEL OR STY_VISIBLE) STA_ALIVE
                   \<lparr>left = 0, top_r = 0, right = 100, bottom = 100\<rparr> Rect0 False [] []]) =
   Some (True,
     exampleWM [exampleWindow 1 STY_TOPLEVEL STA_DIRTY
                   \<lparr>left = 0, top_r = 0, right = 100, bottom = 100\<rparr> Rect0 False [] []]) \<and>
   map getID [exampleWindow 1 STY_TOPLEVEL STA_DIRTY
                \<lparr>left = 0, top_r = 0, right = 100, bottom = 100\<rparr> Rect0 False [] []] = [1]"
  by (simp add: destroyAt_def exampleWM_def exampleWindow_def hide_def setStyle_def
      setDirty_def setDirtyFlag_def setState_def isVisible_def isDrawable_def isAlive_def
      bitsHigh_def STY_TOPLEVEL_def STY_VISIBLE_def STY_FRAME_def STY_SHADOW_def STA_ALIVE_def
      STA_DIRTY_def empty_r_def width_def height_def toExtent_def routeMessage_def
      finishRoute_def removeAllChildren_def setDirtyRect_def getDisplayRect_def
      mkRect_def toCoord_def
      del: destroy.simps redraw.simps
      add: destroy.simps[of _ _ _ "Window d cs" for d cs] redraw.simps[of _ _ _ "Window d cs" for d cs])

section \<open>Creating windows\<close>

text \<open>The failure modes of \<open>createWindow\<close> that are decided before the window is routed any
  message: the reserved id, a top-level style with a parent, and, for a window with a
  parent, a pre-creation hook that fails. The call returns a null pointer and the manager
  is as before.\<close>

lemma createWindow_reserved_id:
  "createWindow wm parent WID_INVALID sty px py w h hook = Some (None, wm)"
  by (simp add: createWindow_def)

lemma createWindow_toplevel_with_parent:
  assumes "bitsHigh sty STY_TOPLEVEL"
  shows "createWindow wm (Some p) i sty px py w h hook = Some (None, wm)"
  using assms by (simp add: createWindow_def newWindow_def Let_def)

lemma createWindow_hook_fails:
  assumes "\<forall>win. \<not> fst (hook win)"
  shows "createWindow wm (Some p) i sty px py w h (Some hook) = Some (None, wm)"
proof -
  let ?r = "mkRect (if bitsHigh sty STY_FULLSCREEN then 0 else px)
              (if bitsHigh sty STY_FULLSCREEN then 0 else py)
              ((if bitsHigh sty STY_FULLSCREEN then 0 else px) +
               (if bitsHigh sty STY_FULLSCREEN then displayWidth wm else w))
              ((if bitsHigh sty STY_FULLSCREEN then 0 else py) +
               (if bitsHigh sty STY_FULLSCREEN then displayHeight wm else h))"
  have n: "newWindow True i sty ?r = Some (initWindow True i sty ?r)"
    by (simp add: newWindow_def)
  obtain ok win1 where k: "hook (initWindow True i sty ?r) = (ok, win1)"
    by (cases "hook (initWindow True i sty ?r)")
  then have "\<not> ok"
    using assms by (metis fst_conv)
  then show ?thesis
    using n k unfolding createWindow_def Let_def by simp
qed

text \<open>
  Claim C7, creation atomicity. \<open>createWindow\<close> with the style \<open>STY_CHILD\<close> and a null
  parent constructs the window before it tests the style; the constructor asserts the
  parent, the assertion fails and the call does not return, where the claim has it return
  a null handle.
\<close>

theorem createWindow_child_without_parent_never_returns:
  "createWindow (exampleWM []) None 1 (STY_CHILD OR STY_VISIBLE) 10 10 100 50 None = None"
  by (simp add: createWindow_def newWindow_def WID_INVALID_def bitsHigh_def Let_def
      STY_TOPLEVEL_def STY_VISIBLE_def STY_FRAME_def STY_SHADOW_def STY_CHILD_def
      STY_FULLSCREEN_def)

section \<open>Occlusion culling in \<open>render\<close>\<close>
















end
